theory Spec2Isabelle
  imports Main "HOL-Library.Word" "HOL-Library.Monad_Syntax"
begin

section \<open>Data model\<close>

text \<open>
  The menu engine of \<^verbatim>\<open>LcdMenu.h\<close> together with the two item classes
  \<^verbatim>\<open>ItemList.h\<close> and \<^verbatim>\<open>ItemProgress.h\<close>.  Fields of type
  \<^verbatim>\<open>uint8_t\<close> and \<^verbatim>\<open>uint16_t\<close> are words; expressions the
  C++ evaluates in \<^verbatim>\<open>int\<close> after integer promotion are written over
  \<^typ>\<open>int\<close> and converted back with \<^const>\<open>word_of_int\<close> where the source
  stores them into a narrow field.  Loop indices of type \<^verbatim>\<open>size_t\<close> are
  natural numbers; where the source would wrap such an index below zero it
  reads far outside the array, which the model reports as \<^term>\<open>None\<close>.
  \<^term>\<open>None\<close> always stands for behaviour the C++ leaves undefined (a read
  outside a menu array, a dangling table pointer, a division by zero) or for
  a loop that does not return.
\<close>

type_synonym u8 = "8 word"
type_synonym u16 = "16 word"

datatype item_type =
    MENU_ITEM_MAIN_MENU_HEADER
  | MENU_ITEM_SUB_MENU_HEADER
  | MENU_ITEM_SUB_MENU
  | MENU_ITEM_COMMAND
  | MENU_ITEM_INPUT
  | MENU_ITEM_NONE
  | MENU_ITEM_TOGGLE
  | MENU_ITEM_END_OF_MENU
  | MENU_ITEM_LIST
  | MENU_ITEM_PROGRESS

text \<open>
  Modelled from the spec: the base class \<^verbatim>\<open>MenuItem\<close> and the header,
  sub-menu, command, toggle and input items live in \<^verbatim>\<open>MenuItem.h\<close> and
  sibling headers that are not among the sources.  One record carries the
  fields of all variants; \<^term>\<open>itemType\<close> is the tag returned by
  \<^verbatim>\<open>getType()\<close> and selects which fields a virtual call reads.
  A table pointer (\<^verbatim>\<open>MenuItem **\<close>) is the index of the table in the heap.
  The fields \<^term>\<open>itemCount\<close> to \<^term>\<open>stepLength\<close> are those of
  \<^verbatim>\<open>ItemList\<close> and \<^verbatim>\<open>ItemProgress\<close>; a callback pointer is
  represented by whether it is set.
\<close>

record MenuItem =
  itemType :: item_type
  hidden :: bool
  itemText :: string
  subMenu :: "nat option"
  hdrTop :: u8
  hdrBottom :: u8
  hdrCursorPosition :: u8
  isOn :: bool
  inputValue :: string
  items :: "string list"
  itemCount :: u8
  itemIndex :: u16
  initialItemIndex :: u16
  hasChangeCallback :: bool
  hasCallback :: bool
  progress :: u16
  initialProgress :: u16
  stepLength :: u8

text \<open>
  What the engine does to its collaborators (the display and the callbacks
  of the items) is recorded as a trace of events, oldest first.
\<close>

datatype event =
    Redraw
  | CursorDrawn
  | CommandFired
  | ToggleNotified bool
  | ValueChanged u16
  | EditCommitted u16
  | TextCommitted string

record LcdMenu =
  cursorPosition :: u8
  top_pos :: u8
  isEditModeEnabled :: bool
  isCharPickerActive :: bool
  bottom :: u8
  maxRows :: u8
  maxCols :: u8
  blinkerPosition :: u8
  currentMenuTable :: nat
  currentMenuSize :: nat
  enableUpdate :: bool
  heap :: "MenuItem list list"
  events :: "event list"

section \<open>Helpers\<close>

text \<open>Arduino's macro \<^verbatim>\<open>constrain(amt, low, high)\<close>, on promoted integers.\<close>

definition constrain :: "int \<Rightarrow> int \<Rightarrow> int \<Rightarrow> int" where
  "constrain amt low high = (if amt < low then low else if amt > high then high else amt)"

definition itemAt :: "MenuItem list \<Rightarrow> nat \<Rightarrow> MenuItem option" where
  "itemAt tbl i = (if i < length tbl then Some (tbl ! i) else None)"

definition tableAt :: "MenuItem list list \<Rightarrow> nat \<Rightarrow> MenuItem list option" where
  "tableAt h p = (if p < length h then Some (h ! p) else None)"

definition table :: "LcdMenu \<Rightarrow> MenuItem list option" where
  "table s = tableAt (heap s) (currentMenuTable s)"

definition putItem :: "LcdMenu \<Rightarrow> nat \<Rightarrow> MenuItem \<Rightarrow> LcdMenu" where
  "putItem s i it =
     s\<lparr>heap := (heap s)[currentMenuTable s := (heap s ! currentMenuTable s)[i := it]]\<rparr>"

definition notify :: "event list \<Rightarrow> LcdMenu \<Rightarrow> LcdMenu" where
  "notify evs s = s\<lparr>events := events s @ evs\<rparr>"

definition isHeader :: "MenuItem \<Rightarrow> bool" where
  "isHeader it = (itemType it = MENU_ITEM_MAIN_MENU_HEADER \<or> itemType it = MENU_ITEM_SUB_MENU_HEADER)"

definition isStructural :: "MenuItem \<Rightarrow> bool" where
  "isStructural it = (isHeader it \<or> itemType it = MENU_ITEM_END_OF_MENU)"

section \<open>ItemList and ItemProgress\<close>

text \<open>
  \<^verbatim>\<open>ItemList::setItemIndex\<close>: the index is clamped to
  \<^verbatim>\<open>[0, itemCount - 1]\<close> and the change callback, when set, is called with
  the stored index.  The result pairs the item with the notifications fired.
\<close>

definition setItemIndex :: "u16 \<Rightarrow> MenuItem \<Rightarrow> MenuItem \<times> event list" where
  "setItemIndex i it =
     (let it' = it\<lparr>itemIndex := word_of_int (constrain (uint i) 0 (uint (itemCount it) - 1))\<rparr>
      in (it', if hasChangeCallback it' then [ValueChanged (itemIndex it')] else []))"

text \<open>
  \<^verbatim>\<open>getItemIndex()\<close>, \<^verbatim>\<open>saveProgress()\<close> and \<^verbatim>\<open>restoreProgress()\<close>
  are virtual: the list item works on its index, the progress item on its
  progress.  The engine calls them on these two variants only.
\<close>

definition getItemIndex :: "MenuItem \<Rightarrow> u16" where
  "getItemIndex it = (if itemType it = MENU_ITEM_LIST then itemIndex it else progress it)"

definition saveProgress :: "MenuItem \<Rightarrow> MenuItem" where
  "saveProgress it =
     (if itemType it = MENU_ITEM_LIST then it\<lparr>initialItemIndex := itemIndex it\<rparr>
      else it\<lparr>initialProgress := progress it\<rparr>)"

definition restoreProgress :: "MenuItem \<Rightarrow> MenuItem" where
  "restoreProgress it =
     (if itemType it = MENU_ITEM_LIST then it\<lparr>itemIndex := initialItemIndex it\<rparr>
      else it\<lparr>progress := initialProgress it\<rparr>)"

text \<open>
  \<^verbatim>\<open>ItemProgress::increment\<close> and \<^verbatim>\<open>decrement\<close>.  The macros
  \<^verbatim>\<open>MAX_PROGRESS\<close> and \<^verbatim>\<open>MIN_PROGRESS\<close> are defined outside the
  sources and are parameters here.  \<^verbatim>\<open>progress += stepLength\<close> is a
  16-bit addition and wraps.
\<close>

definition increment :: "int \<Rightarrow> MenuItem \<Rightarrow> MenuItem" where
  "increment MAX_PROGRESS it =
     (if uint (progress it) \<ge> MAX_PROGRESS then it
      else it\<lparr>progress := progress it + ucast (stepLength it)\<rparr>)"

definition decrement :: "int \<Rightarrow> MenuItem \<Rightarrow> MenuItem" where
  "decrement MIN_PROGRESS it =
     (if uint (progress it) \<le> MIN_PROGRESS then it
      else it\<lparr>progress := progress it - ucast (stepLength it)\<rparr>)"

section \<open>Scanning the active table\<close>

text \<open>\<^verbatim>\<open>for (size_t i = cursor - 1; i > 0; i--)\<close> of \<^verbatim>\<open>checkAllAboveHidden\<close>.\<close>

fun checkAllAboveHidden_loop :: "MenuItem list \<Rightarrow> nat \<Rightarrow> bool option" where
  "checkAllAboveHidden_loop tbl 0 = Some True"
| "checkAllAboveHidden_loop tbl (Suc j) =
     (if Suc j < length tbl
      then (if \<not> hidden (tbl ! Suc j) then Some False else checkAllAboveHidden_loop tbl j)
      else None)"

definition checkAllAboveHidden :: "MenuItem list \<Rightarrow> u8 \<Rightarrow> bool option" where
  "checkAllAboveHidden tbl cursor =
     (if cursor = 0 then None else checkAllAboveHidden_loop tbl (unat cursor - 1))"

text \<open>\<^verbatim>\<open>for (size_t i = cursor + 1; i < currentMenuSize - 2; i++)\<close> of \<^verbatim>\<open>checkAllBelowHidden\<close>.\<close>

function checkAllBelowHidden_loop :: "MenuItem list \<Rightarrow> nat \<Rightarrow> nat \<Rightarrow> bool option" where
  "checkAllBelowHidden_loop tbl n i =
     (if i < n
      then (if i < length tbl
            then (if \<not> hidden (tbl ! i) then Some False else checkAllBelowHidden_loop tbl n (Suc i))
            else None)
      else Some True)"
  by pat_completeness auto
termination
  by (relation "measure (\<lambda>(tbl, n, i). n - i)") auto

declare checkAllBelowHidden_loop.simps [simp del]

definition checkAllBelowHidden :: "MenuItem list \<Rightarrow> nat \<Rightarrow> u8 \<Rightarrow> bool option" where
  "checkAllBelowHidden tbl menuSize cursor =
     (if menuSize < 2 then None
      else checkAllBelowHidden_loop tbl (menuSize - 2) (unat cursor + 1))"

text \<open>
  \<^verbatim>\<open>isAtTheStart\<close>: the loop condition \<^verbatim>\<open>i >= 0\<close> on a \<^verbatim>\<open>size_t\<close>
  never fails, so the scan ends only at a visible item; stepping below index
  0 leaves the array.
\<close>

fun isAtTheStart_loop :: "MenuItem list \<Rightarrow> nat \<Rightarrow> bool option" where
  "isAtTheStart_loop tbl 0 =
     (if 0 < length tbl then (if \<not> hidden (tbl ! 0) then Some True else None) else None)"
| "isAtTheStart_loop tbl (Suc j) =
     (if Suc j < length tbl
      then (if \<not> hidden (tbl ! Suc j) then Some False else isAtTheStart_loop tbl j)
      else None)"

definition isAtTheStart :: "LcdMenu \<Rightarrow> bool option" where
  "isAtTheStart s =
     do {
       tbl \<leftarrow> table s;
       if cursorPosition s = 0 then None
       else isAtTheStart_loop tbl (unat (cursorPosition s) - 1)
     }"

function isAtTheEnd_loop :: "MenuItem list \<Rightarrow> nat \<Rightarrow> nat \<Rightarrow> bool option" where
  "isAtTheEnd_loop tbl menuSize i =
     (if i < menuSize
      then (if i < length tbl
            then (if \<not> hidden (tbl ! i) then Some (i = menuSize - 1)
                  else isAtTheEnd_loop tbl menuSize (Suc i))
            else None)
      else Some True)"
  by pat_completeness auto
termination
  by (relation "measure (\<lambda>(tbl, menuSize, i). menuSize - i)") auto

declare isAtTheEnd_loop.simps [simp del]

definition isAtTheEnd :: "LcdMenu \<Rightarrow> bool option" where
  "isAtTheEnd s =
     do {
       tbl \<leftarrow> table s;
       isAtTheEnd_loop tbl (currentMenuSize s) (unat (cursorPosition s) + 1)
     }"

function getMenuSize_loop :: "MenuItem list \<Rightarrow> nat \<Rightarrow> nat option" where
  "getMenuSize_loop menu s =
     (if s < length menu
      then (if itemType (menu ! s) \<noteq> MENU_ITEM_END_OF_MENU then getMenuSize_loop menu (Suc s)
            else Some (Suc s))
      else None)"
  by pat_completeness auto
termination
  by (relation "measure (\<lambda>(menu, s). length menu - s)") auto

declare getMenuSize_loop.simps [simp del]

definition getMenuSize :: "MenuItem list \<Rightarrow> nat option" where
  "getMenuSize menu = getMenuSize_loop menu 0"

definition isSubMenu :: "LcdMenu \<Rightarrow> bool option" where
  "isSubMenu s =
     do {
       tbl \<leftarrow> table s;
       hdr \<leftarrow> itemAt tbl 0;
       Some (itemType hdr = MENU_ITEM_SUB_MENU_HEADER)
     }"

section \<open>Drawing\<close>

text \<open>
  \<^verbatim>\<open>update()\<close> redraws the menu and the cursor unless updates are disabled;
  \<^verbatim>\<open>drawCursor()\<close> alone redraws the cursor column.  The model keeps of a
  redraw only that it happened, as one event of the trace.  It leaves out
  what \<^verbatim>\<open>drawMenu()\<close> and \<^verbatim>\<open>drawCursor()\<close> read from the active table to
  lay out the rows, the cursor and the arrows, and the blinker position that
  \<^verbatim>\<open>drawCursor()\<close> recomputes when the cursor is on an input item.  So
  where the model gives a result for an operation that redraws, the engine
  has that result, but for \<^verbatim>\<open>blinkerPosition\<close>, if its redraw is defined;
  whether it is, the model does not decide.
\<close>

definition update :: "LcdMenu \<Rightarrow> LcdMenu" where
  "update s = (if enableUpdate s then notify [Redraw] s else s)"

definition drawCursor :: "LcdMenu \<Rightarrow> LcdMenu" where
  "drawCursor s = notify [CursorDrawn] s"

definition isInEditMode :: "LcdMenu \<Rightarrow> bool" where
  "isInEditMode s = isEditModeEnabled s"

definition getCursorPosition :: "LcdMenu \<Rightarrow> u8" where
  "getCursorPosition s = cursorPosition s"

definition setCursorPosition :: "u8 \<Rightarrow> LcdMenu \<Rightarrow> LcdMenu" where
  "setCursorPosition position s = s\<lparr>cursorPosition := position\<rparr>"

section \<open>Cursor movement\<close>

text \<open>
  The \<^verbatim>\<open>do ... while\<close> loops of \<^verbatim>\<open>up()\<close> and \<^verbatim>\<open>down()\<close>.  Each
  result carries whether the loop was left at its end (\<^term>\<open>True\<close>) or by
  \<^verbatim>\<open>return false\<close>, the engine as it is then, and \<^verbatim>\<open>numSkipped\<close>
  (an \<^verbatim>\<open>int8_t\<close>).
\<close>

partial_function (option) up_loop :: "LcdMenu \<Rightarrow> u8 \<Rightarrow> (bool \<times> LcdMenu \<times> u8) option" where
  "up_loop s numSkipped =
     do {
       atStart \<leftarrow> isAtTheStart s;
       if atStart \<or> isEditModeEnabled s then Some (False, s, numSkipped)
       else do {
         let s' = s\<lparr>cursorPosition := cursorPosition s - 1\<rparr>;
         let n' = numSkipped + 1;
         tbl \<leftarrow> table s';
         it \<leftarrow> itemAt tbl (unat (cursorPosition s'));
         if hidden it then up_loop s' n' else Some (True, s', n')
       }
     }"

partial_function (option) down_loop :: "LcdMenu \<Rightarrow> u8 \<Rightarrow> (bool \<times> LcdMenu \<times> u8) option" where
  "down_loop s numSkipped =
     do {
       atEnd \<leftarrow> isAtTheEnd s;
       if atEnd \<or> isEditModeEnabled s then Some (False, s, numSkipped)
       else do {
         let s' = s\<lparr>cursorPosition := cursorPosition s + 1\<rparr>;
         let n' = numSkipped + 1;
         tbl \<leftarrow> table s';
         it \<leftarrow> itemAt tbl (unat (cursorPosition s'));
         if hidden it then down_loop s' n' else Some (True, s', n')
       }
     }"

text \<open>The row of the display the cursor is drawn on, before the hidden-item overrides.\<close>

definition cursorLine :: "LcdMenu \<Rightarrow> u8" where
  "cursorLine s =
     word_of_int (constrain (uint (cursorPosition s) - uint (top_pos s)) 0 (uint (maxRows s) - 1))"

definition wasAtTop :: "LcdMenu \<Rightarrow> bool option" where
  "wasAtTop s =
     do {
       tbl \<leftarrow> table s;
       above \<leftarrow> checkAllAboveHidden tbl (cursorPosition s);
       let line = (if above then 0 else cursorLine s);
       Some (line = 0)
     }"

definition wasAtBottom :: "LcdMenu \<Rightarrow> bool option" where
  "wasAtBottom s =
     do {
       tbl \<leftarrow> table s;
       below \<leftarrow> checkAllBelowHidden tbl (currentMenuSize s) (cursorPosition s);
       let line = (if below then word_of_int (uint (maxRows s) - 1) else cursorLine s);
       Some (uint line = uint (maxRows s) - 1)
     }"

definition up :: "LcdMenu \<Rightarrow> (bool \<times> LcdMenu) option" where
  "up s =
     do {
       atTop \<leftarrow> wasAtTop s;
       (moved, s1, numSkipped) \<leftarrow> up_loop s 1;
       if \<not> moved then Some (False, s1)
       else
         let s2 =
           (if cursorPosition s1 < top_pos s1 then
              (if atTop then
                 s1\<lparr>top_pos := cursorPosition s1,
                    bottom := word_of_int (uint (cursorPosition s1) + uint (maxRows s1) - 1)\<rparr>
               else s1)
            else s1)
         in Some (True, update s2)
     }"

definition down :: "LcdMenu \<Rightarrow> (bool \<times> LcdMenu) option" where
  "down s =
     do {
       atBottom \<leftarrow> wasAtBottom s;
       (moved, s1, numSkipped) \<leftarrow> down_loop s (- 1);
       if \<not> moved then Some (False, s1)
       else
         let s2 =
           (if cursorPosition s1 > bottom s1 then
              (if atBottom then
                 let t = (word_of_int (uint (cursorPosition s1) - sint numSkipped - 1) :: u8)
                 in s1\<lparr>top_pos := t, bottom := word_of_int (uint t + uint (maxRows s1) - 1)\<rparr>
               else s1)
            else s1)
         in Some (True, update s2)
     }"

section \<open>Sub-menus\<close>

text \<open>
  Modelled from the spec: the accessors \<^verbatim>\<open>setTop\<close>, \<^verbatim>\<open>setBottom\<close>,
  \<^verbatim>\<open>setCursorPosition\<close> and their getters are declared in the missing
  \<^verbatim>\<open>MenuItem.h\<close>.  By the spec the header node of a table (of the root
  table too) stores the scroll memento; for any other variant the spec says
  nothing and the model gives no result.
\<close>

definition saveMemento :: "MenuItem \<Rightarrow> u8 \<Rightarrow> u8 \<Rightarrow> u8 \<Rightarrow> MenuItem option" where
  "saveMemento hdr t b c =
     (if isHeader hdr then Some (hdr\<lparr>hdrTop := t, hdrBottom := b, hdrCursorPosition := c\<rparr>)
      else None)"

definition loadMemento :: "MenuItem \<Rightarrow> (u8 \<times> u8 \<times> u8) option" where
  "loadMemento hdr =
     (if isHeader hdr then Some (hdrTop hdr, hdrBottom hdr, hdrCursorPosition hdr) else None)"

definition enterSubMenu :: "LcdMenu \<Rightarrow> MenuItem \<Rightarrow> LcdMenu option" where
  "enterSubMenu s item =
     (case subMenu item of
        None \<Rightarrow> Some s
      | Some child \<Rightarrow>
          do {
            tbl \<leftarrow> table s;
            hdr \<leftarrow> itemAt tbl 0;
            hdr' \<leftarrow> saveMemento hdr (top_pos s) (bottom s) (cursorPosition s);
            let s1 = putItem s 0 hdr';
            let s2 = s1\<lparr>top_pos := 1, bottom := maxRows s1, cursorPosition := 1\<rparr>;
            let s3 = s2\<lparr>currentMenuTable := child\<rparr>;
            tbl' \<leftarrow> table s3;
            menuSize \<leftarrow> getMenuSize tbl';
            Some (update (s3\<lparr>currentMenuSize := menuSize\<rparr>))
          })"

definition leaveSubMenu :: "LcdMenu \<Rightarrow> MenuItem \<Rightarrow> LcdMenu option" where
  "leaveSubMenu s item =
     (case subMenu item of
        None \<Rightarrow> Some s
      | Some parent \<Rightarrow>
          do {
            let s1 = s\<lparr>currentMenuTable := parent\<rparr>;
            tbl \<leftarrow> table s1;
            menuSize \<leftarrow> getMenuSize tbl;
            let s2 = s1\<lparr>currentMenuSize := menuSize\<rparr>;
            hdr \<leftarrow> itemAt tbl 0;
            (t, b, c) \<leftarrow> loadMemento hdr;
            Some (update (s2\<lparr>top_pos := t, bottom := b, cursorPosition := c\<rparr>))
          })"

section \<open>Enter and back\<close>

text \<open>\<^verbatim>\<open>back()\<close> is called \<open>backpress\<close> here.\<close>

text \<open>
  Modelled from the spec: the command, toggle and input branches call into
  item classes that are not among the sources; a command fires its action,
  a toggle flips \<^verbatim>\<open>isOn\<close> and notifies with the new value, an input item
  commits its text.  A callback is called only when its pointer is set.
\<close>

definition enterEdit :: "LcdMenu \<Rightarrow> MenuItem \<Rightarrow> LcdMenu" where
  "enterEdit s item =
     (if \<not> isInEditMode s then
        drawCursor (putItem (s\<lparr>isEditModeEnabled := True\<rparr>) (unat (cursorPosition s))
                      (saveProgress item))
      else s)"

definition enter :: "LcdMenu \<Rightarrow> LcdMenu option" where
  "enter s =
     do {
       tbl \<leftarrow> table s;
       item \<leftarrow> itemAt tbl (unat (cursorPosition s));
       case itemType item of
         MENU_ITEM_SUB_MENU \<Rightarrow> enterSubMenu s item
       | MENU_ITEM_COMMAND \<Rightarrow>
           Some (update (if hasCallback item then notify [CommandFired] s else s))
       | MENU_ITEM_TOGGLE \<Rightarrow>
           (let item' = item\<lparr>isOn := \<not> isOn item\<rparr>;
                s1 = putItem s (unat (cursorPosition s)) item'
            in Some (update (if hasCallback item' then notify [ToggleNotified (isOn item')] s1
                             else s1)))
       | MENU_ITEM_INPUT \<Rightarrow>
           Some (if \<not> isInEditMode s then drawCursor (s\<lparr>isEditModeEnabled := True\<rparr>) else s)
       | MENU_ITEM_PROGRESS \<Rightarrow> Some (enterEdit s item)
       | MENU_ITEM_LIST \<Rightarrow> Some (enterEdit s item)
       | _ \<Rightarrow> Some s
     }"

definition leaveIfSubMenu :: "LcdMenu \<Rightarrow> LcdMenu option" where
  "leaveIfSubMenu s =
     do {
       sub \<leftarrow> isSubMenu s;
       if sub then do { tbl \<leftarrow> table s; hdr \<leftarrow> itemAt tbl 0; leaveSubMenu s hdr }
       else Some s
     }"

definition commitEdit :: "bool \<Rightarrow> LcdMenu \<Rightarrow> MenuItem \<Rightarrow> LcdMenu" where
  "commitEdit editCancelled s item =
     (let s1 = s\<lparr>isEditModeEnabled := False\<rparr>;
          item' = (if editCancelled then restoreProgress item else item);
          s2 = putItem s1 (unat (cursorPosition s1)) item';
          s3 = (if hasCallback item' then notify [EditCommitted (getItemIndex item')] s2 else s2)
      in update s3)"

definition backpress :: "bool \<Rightarrow> LcdMenu \<Rightarrow> LcdMenu option" where
  "backpress editCancelled s =
     do {
       tbl \<leftarrow> table s;
       item \<leftarrow> itemAt tbl (unat (cursorPosition s));
       if isInEditMode s then
         (case itemType item of
            MENU_ITEM_INPUT \<Rightarrow>
              (let s1 = update (s\<lparr>isEditModeEnabled := False\<rparr>)
               in Some (if hasCallback item then notify [TextCommitted (inputValue item)] s1
                        else s1))
          | MENU_ITEM_LIST \<Rightarrow> Some (commitEdit editCancelled s item)
          | MENU_ITEM_PROGRESS \<Rightarrow> Some (commitEdit editCancelled s item)
          | _ \<Rightarrow> leaveIfSubMenu s)
       else leaveIfSubMenu s
     }"

section \<open>Left and right\<close>

definition resetBlinker :: "LcdMenu \<Rightarrow> MenuItem \<Rightarrow> LcdMenu" where
  "resetBlinker s item =
     (let lb = (of_nat (length (itemText item) + 2) :: u8);
          ub = (of_nat (unat lb + length (inputValue item)) :: u8);
          ub' = (word_of_int (constrain (uint ub) (uint lb) (uint (maxCols s) - 2)) :: u8)
      in s\<lparr>blinkerPosition :=
              word_of_int (constrain (uint (blinkerPosition s)) (uint lb) (uint ub'))\<rparr>)"

definition left :: "int \<Rightarrow> LcdMenu \<Rightarrow> LcdMenu option" where
  "left MIN_PROGRESS s =
     (if isInEditMode s \<and> isCharPickerActive s then Some s
      else do {
        tbl \<leftarrow> table s;
        item \<leftarrow> itemAt tbl (unat (cursorPosition s));
        let previousIndex = (ucast (getItemIndex item) :: u8);
        case itemType item of
          MENU_ITEM_LIST \<Rightarrow>
            (let (item', evs) = setItemIndex (word_of_int (uint (getItemIndex item) - 1)) item;
                 s1 = notify evs (putItem s (unat (cursorPosition s)) item')
             in Some (if uint previousIndex \<noteq> uint (getItemIndex item') then update s1 else s1))
        | MENU_ITEM_INPUT \<Rightarrow>
            Some (resetBlinker (s\<lparr>blinkerPosition := blinkerPosition s - 1\<rparr>) item)
        | MENU_ITEM_PROGRESS \<Rightarrow>
            Some (if isInEditMode s
                  then update (putItem s (unat (cursorPosition s)) (decrement MIN_PROGRESS item))
                  else s)
        | _ \<Rightarrow> Some s
      })"

definition right :: "int \<Rightarrow> LcdMenu \<Rightarrow> LcdMenu option" where
  "right MAX_PROGRESS s =
     (if isInEditMode s \<and> isCharPickerActive s then Some s
      else do {
        tbl \<leftarrow> table s;
        item \<leftarrow> itemAt tbl (unat (cursorPosition s));
        case itemType item of
          MENU_ITEM_LIST \<Rightarrow>
            (if itemCount item = 0 then None
             else
               let (item', evs) =
                     setItemIndex (word_of_int ((uint (getItemIndex item) + 1) mod uint (itemCount item)))
                       item;
                   s1 = notify evs (putItem s (unat (cursorPosition s)) item')
               in Some (update s1))
        | MENU_ITEM_INPUT \<Rightarrow>
            Some (resetBlinker (s\<lparr>blinkerPosition := blinkerPosition s + 1\<rparr>) item)
        | MENU_ITEM_PROGRESS \<Rightarrow>
            Some (if isInEditMode s
                  then update (putItem s (unat (cursorPosition s)) (increment MAX_PROGRESS item))
                  else s)
        | _ \<Rightarrow> Some s
      })"

section \<open>The character picker\<close>

text \<open>
  \<^verbatim>\<open>drawChar(c)\<close> shows a candidate character at the blinker of an input
  item that is being edited and marks the character picker as active.  The
  character goes to the display only.
\<close>

definition drawChar :: "char \<Rightarrow> LcdMenu \<Rightarrow> LcdMenu option" where
  "drawChar c s =
     do {
       tbl \<leftarrow> table s;
       item \<leftarrow> itemAt tbl (unat (cursorPosition s));
       if itemType item \<noteq> MENU_ITEM_INPUT \<or> \<not> isEditModeEnabled s then Some s
       else Some ((resetBlinker s item)\<lparr>isCharPickerActive := True\<rparr>)
     }"

section \<open>Construction\<close>

text \<open>The constructor followed by \<^verbatim>\<open>setupLcdWithMenu\<close> on the table at \<open>menu\<close>.\<close>

definition setupLcdWithMenu :: "u8 \<Rightarrow> u8 \<Rightarrow> MenuItem list list \<Rightarrow> nat \<Rightarrow> LcdMenu option" where
  "setupLcdWithMenu rows cols h menu =
     do {
       tbl \<leftarrow> tableAt h menu;
       menuSize \<leftarrow> getMenuSize tbl;
       Some (update
         \<lparr>cursorPosition = 1, top_pos = 1, isEditModeEnabled = False, isCharPickerActive = False,
          bottom = rows, maxRows = rows, maxCols = cols, blinkerPosition = 0,
          currentMenuTable = menu, currentMenuSize = menuSize, enableUpdate = True,
          heap = h, events = []\<rparr>)
     }"

section \<open>Sequences of inputs\<close>

text \<open>
  The four navigation inputs; \<open>Back c\<close> is \<^verbatim>\<open>back(c)\<close>.  A sequence of
  inputs runs from left to right and has a result only if every input
  returns.
\<close>

datatype input = Up | Down | Enter | Back bool

fun step :: "input \<Rightarrow> LcdMenu \<Rightarrow> LcdMenu option" where
  "step Up s = map_option snd (up s)"
| "step Down s = map_option snd (down s)"
| "step Enter s = enter s"
| "step (Back c) s = backpress c s"

fun run :: "input list \<Rightarrow> LcdMenu \<Rightarrow> LcdMenu option" where
  "run [] s = Some s"
| "run (a # as) s = step a s \<bind> run as"

fun repeatM :: "nat \<Rightarrow> ('a \<Rightarrow> 'a option) \<Rightarrow> 'a \<Rightarrow> 'a option" where
  "repeatM 0 f s = Some s"
| "repeatM (Suc k) f s = f s \<bind> repeatM k f"

text \<open>The two value gestures, with the progress bounds they are compiled with.\<close>

datatype gesture = CycleLeft | CycleRight

fun applyGesture :: "int \<Rightarrow> int \<Rightarrow> gesture \<Rightarrow> LcdMenu \<Rightarrow> LcdMenu option" where
  "applyGesture MIN_PROGRESS MAX_PROGRESS CycleLeft s = left MIN_PROGRESS s"
| "applyGesture MIN_PROGRESS MAX_PROGRESS CycleRight s = right MAX_PROGRESS s"

fun applyGestures :: "int \<Rightarrow> int \<Rightarrow> gesture list \<Rightarrow> LcdMenu \<Rightarrow> LcdMenu option" where
  "applyGestures MIN_PROGRESS MAX_PROGRESS [] s = Some s"
| "applyGestures MIN_PROGRESS MAX_PROGRESS (g # gs) s =
     applyGesture MIN_PROGRESS MAX_PROGRESS g s \<bind> applyGestures MIN_PROGRESS MAX_PROGRESS gs"

text \<open>
  Two engines agree on everything a value gesture must leave alone; two items
  agree on everything but their current value.
\<close>

definition sameNav :: "LcdMenu \<Rightarrow> LcdMenu \<Rightarrow> bool" where
  "sameNav s s' \<longleftrightarrow>
     cursorPosition s' = cursorPosition s \<and> top_pos s' = top_pos s \<and> bottom s' = bottom s \<and>
     isEditModeEnabled s' = isEditModeEnabled s \<and> isCharPickerActive s' = isCharPickerActive s \<and>
     maxRows s' = maxRows s \<and> currentMenuTable s' = currentMenuTable s \<and>
     currentMenuSize s' = currentMenuSize s \<and> enableUpdate s' = enableUpdate s"

definition sameSnapshot :: "MenuItem \<Rightarrow> MenuItem \<Rightarrow> bool" where
  "sameSnapshot it it' \<longleftrightarrow>
     itemType it' = itemType it \<and> itemCount it' = itemCount it \<and>
     hasCallback it' = hasCallback it \<and> initialItemIndex it' = initialItemIndex it \<and>
     initialProgress it' = initialProgress it"

text \<open>The item under the cursor, \<^verbatim>\<open>currentMenuTable[cursorPosition]\<close>.\<close>

definition cursorItem :: "LcdMenu \<Rightarrow> MenuItem option" where
  "cursorItem s = table s \<bind> (\<lambda>tbl. itemAt tbl (unat (cursorPosition s)))"

section \<open>Well-formed tables and states\<close>

text \<open>
  A well-formed table has a visible header at index 0, an end marker at its
  last index, at least one and at most 254 entries between them (so that an
  8-bit cursor reaches every index), and no structural node among the entries.
\<close>

definition wf_table :: "MenuItem list \<Rightarrow> bool" where
  "wf_table tbl \<longleftrightarrow>
     3 \<le> length tbl \<and> length tbl \<le> 256 \<and> isHeader (tbl ! 0) \<and> \<not> hidden (tbl ! 0) \<and>
     itemType (tbl ! (length tbl - 1)) = MENU_ITEM_END_OF_MENU \<and>
     list_all (\<lambda>i. \<not> isStructural (tbl ! i)) [1..<length tbl - 1]"

text \<open>The active table is well-formed and the cursor is on one of its entries.\<close>

definition onEntry :: "LcdMenu \<Rightarrow> bool" where
  "onEntry s \<longleftrightarrow>
     (case table s of
        None \<Rightarrow> False
      | Some tbl \<Rightarrow>
          wf_table tbl \<and> currentMenuSize s = length tbl \<and>
          1 \<le> unat (cursorPosition s) \<and> unat (cursorPosition s) < length tbl - 1)"

text \<open>Some item with an index from \<open>a\<close> up to, but excluding, \<open>b\<close> is visible.\<close>

definition visibleIn :: "MenuItem list \<Rightarrow> nat \<Rightarrow> nat \<Rightarrow> bool" where
  "visibleIn tbl a b \<longleftrightarrow> list_ex (\<lambda>i. \<not> hidden (tbl ! i)) [a..<b]"

text \<open>The number of hidden items with an index strictly between \<open>a\<close> and \<open>b\<close>.\<close>

definition hiddenBetween :: "MenuItem list \<Rightarrow> nat \<Rightarrow> nat \<Rightarrow> nat" where
  "hiddenBetween tbl a b = length (filter (\<lambda>i. hidden (tbl ! i)) [Suc a..<b])"

text \<open>
  The cursor is drawn on the last, respectively the first, row of the display:
  the test \<^verbatim>\<open>up()\<close> and \<^verbatim>\<open>down()\<close> make on \<^verbatim>\<open>cursorLine\<close>.
\<close>

definition onLastRow :: "LcdMenu \<Rightarrow> bool" where
  "onLastRow s \<longleftrightarrow> uint (cursorLine s) = uint (maxRows s) - 1"

definition onFirstRow :: "LcdMenu \<Rightarrow> bool" where
  "onFirstRow s \<longleftrightarrow> cursorLine s = 0"

section \<open>The navigation invariant\<close>

text \<open>
  A heap is plain for a display of \<open>rows\<close> rows if the display has at
  least two rows, no node of any table is hidden, and the entries of each
  table and the rows of the display number at most 256 together.
\<close>

definition plain :: "u8 \<Rightarrow> MenuItem list list \<Rightarrow> bool" where
  "plain rows h \<longleftrightarrow>
     2 \<le> unat rows \<and>
     list_all (\<lambda>tbl. length tbl + unat rows \<le> 258 \<and> list_all (\<lambda>it. \<not> hidden it) tbl) h"

text \<open>
  The cursor \<open>c\<close> is not below the window of \<open>rows\<close> rows that starts at
  \<open>t\<close>, and the last index of that window fits in eight bits.
\<close>

definition within :: "u8 \<Rightarrow> u8 \<Rightarrow> u8 \<Rightarrow> bool" where
  "within rows t c \<longleftrightarrow> unat c \<le> unat t + unat rows - 1 \<and> unat t + unat rows - 1 \<le> 255"

text \<open>
  The scroll memento in the header of a table is usable on a display of
  \<open>rows\<close> rows: the saved top and cursor are entries of the table, both
  visible, the top is not below the cursor, and the saved window has
  \<open>rows\<close> rows.  With \<open>w\<close>, the saved cursor is moreover within the saved
  window.
\<close>

definition mementoOK :: "bool \<Rightarrow> u8 \<Rightarrow> MenuItem list \<Rightarrow> bool" where
  "mementoOK w rows tbl \<longleftrightarrow>
     1 \<le> unat (hdrTop (tbl ! 0)) \<and>
     unat (hdrTop (tbl ! 0)) \<le> unat (hdrCursorPosition (tbl ! 0)) \<and>
     unat (hdrCursorPosition (tbl ! 0)) < length tbl - 1 \<and>
     \<not> hidden (tbl ! unat (hdrCursorPosition (tbl ! 0))) \<and>
     \<not> hidden (tbl ! unat (hdrTop (tbl ! 0))) \<and>
     hdrBottom (tbl ! 0) = hdrTop (tbl ! 0) + rows - 1 \<and>
     (w \<longrightarrow> within rows (hdrTop (tbl ! 0)) (hdrCursorPosition (tbl ! 0)))"

text \<open>
  Every table \<^verbatim>\<open>back()\<close> can return to from the table at \<open>a\<close> carries a
  usable memento: either the header at \<open>a\<close> is no sub-menu header or has no
  parent link, and \<^verbatim>\<open>back()\<close> stays, or it links to a parent with a usable
  memento from which the same holds.
\<close>

inductive chainOK :: "bool \<Rightarrow> u8 \<Rightarrow> MenuItem list list \<Rightarrow> nat \<Rightarrow> bool"
  for w :: bool and rows :: u8 and h :: "MenuItem list list" where
  top_level: "itemType (h ! a ! 0) \<noteq> MENU_ITEM_SUB_MENU_HEADER \<Longrightarrow> chainOK w rows h a"
| no_parent: "subMenu (h ! a ! 0) = None \<Longrightarrow> chainOK w rows h a"
| sub_level:
    "itemType (h ! a ! 0) = MENU_ITEM_SUB_MENU_HEADER \<Longrightarrow> subMenu (h ! a ! 0) = Some p \<Longrightarrow>
     p < length h \<Longrightarrow> mementoOK w rows (h ! p) \<Longrightarrow> chainOK w rows h p \<Longrightarrow>
     chainOK w rows h a"

text \<open>
  Every sub-menu link of the table at \<open>a\<close> is null or points to a table of the
  heap whose header is a sub-menu header that links back to \<open>a\<close>.
\<close>

definition linkOK :: "MenuItem list list \<Rightarrow> nat \<Rightarrow> MenuItem \<Rightarrow> bool" where
  "linkOK h a it \<longleftrightarrow>
     (case subMenu it of
        None \<Rightarrow> True
      | Some c \<Rightarrow>
          c < length h \<and> itemType (h ! c ! 0) = MENU_ITEM_SUB_MENU_HEADER \<and>
          subMenu (h ! c ! 0) = Some a)"

definition linksOK :: "MenuItem list list \<Rightarrow> nat \<Rightarrow> bool" where
  "linksOK h a \<longleftrightarrow>
     list_all (\<lambda>it. itemType it = MENU_ITEM_SUB_MENU \<longrightarrow> linkOK h a it) (h ! a)"

text \<open>
  A well-formed heap: every table is well-formed, its first entry is visible
  (it is where the cursor lands on entering the table), and its links are
  as above.
\<close>

definition heapOK :: "MenuItem list list \<Rightarrow> bool" where
  "heapOK h \<longleftrightarrow>
     list_all (\<lambda>a. wf_table (h ! a) \<and> \<not> hidden (h ! a ! 1) \<and> linksOK h a) [0..<length h]"

text \<open>
  The invariant of navigation: the heap is well-formed, the display has a
  row, the cursor is on a visible entry of the active table, \<open>top\<close> is a
  visible entry not below the cursor, the window has \<open>maxRows\<close> rows, and
  the mementos on the way back to the root are usable.  With \<open>w\<close>, the
  heap is moreover plain and the cursor is within the window.
\<close>

definition navInv :: "bool \<Rightarrow> LcdMenu \<Rightarrow> bool" where
  "navInv w s \<longleftrightarrow>
     heapOK (heap s) \<and> maxRows s \<noteq> 0 \<and> onEntry s \<and>
     (case table s of
        None \<Rightarrow> False
      | Some tbl \<Rightarrow>
          \<not> hidden (tbl ! unat (cursorPosition s)) \<and>
          1 \<le> unat (top_pos s) \<and> unat (top_pos s) \<le> unat (cursorPosition s) \<and>
          \<not> hidden (tbl ! unat (top_pos s))) \<and>
     bottom s = top_pos s + maxRows s - 1 \<and>
     chainOK w (maxRows s) (heap s) (currentMenuTable s) \<and>
     (w \<longrightarrow> plain (maxRows s) (heap s) \<and> within (maxRows s) (top_pos s) (cursorPosition s))"

text \<open>The fields of an item that the invariant reads outside a header's memento.\<close>

definition shape :: "MenuItem \<Rightarrow> item_type \<times> bool \<times> nat option" where
  "shape it = (itemType it, hidden it, subMenu it)"

definition sameShape :: "MenuItem list list \<Rightarrow> MenuItem list list \<Rightarrow> bool" where
  "sameShape h h' \<longleftrightarrow> map (map shape) h' = map (map shape) h"

section \<open>Example menus\<close>

text \<open>A visible item of the given type with no callbacks, index 0 and step 1.\<close>

definition mkItem :: "item_type \<Rightarrow> MenuItem" where
  "mkItem t =
     \<lparr>itemType = t, hidden = False, itemText = [], subMenu = None, hdrTop = 0,
      hdrBottom = 0, hdrCursorPosition = 0, isOn = False, inputValue = [], items = [], itemCount = 0,
      itemIndex = 0, initialItemIndex = 0, hasChangeCallback = False, hasCallback = False,
      progress = 0, initialProgress = 0, stepLength = 1\<rparr>"

definition fiveCommands :: "MenuItem list" where
  "fiveCommands =
     [mkItem MENU_ITEM_MAIN_MENU_HEADER, mkItem MENU_ITEM_COMMAND, mkItem MENU_ITEM_COMMAND,
      mkItem MENU_ITEM_COMMAND, mkItem MENU_ITEM_COMMAND, mkItem MENU_ITEM_COMMAND,
      mkItem MENU_ITEM_END_OF_MENU]"

text \<open>A list item with three colours and both callbacks, alone in a root menu.\<close>

definition colourList :: MenuItem where
  "colourList =
     (mkItem MENU_ITEM_LIST)\<lparr>items := [''Red'', ''Green'', ''Blue''], itemCount := 3,
        hasChangeCallback := True, hasCallback := True\<rparr>"

definition singleList :: MenuItem where
  "singleList =
     (mkItem MENU_ITEM_LIST)\<lparr>items := [''Only''], itemCount := 1, hasChangeCallback := True\<rparr>"

text \<open>The engine as set up on the given heap with the root table at address 0.\<close>

definition startState :: "u8 \<Rightarrow> MenuItem list list \<Rightarrow> LcdMenu" where
  "startState rows h =
     \<lparr>cursorPosition = 1, top_pos = 1, isEditModeEnabled = False, isCharPickerActive = False,
      bottom = rows, maxRows = rows, maxCols = 16, blinkerPosition = 0,
      currentMenuTable = 0, currentMenuSize = length (h ! 0), enableUpdate = True,
      heap = h, events = []\<rparr>"

definition colourMenu :: "MenuItem list" where
  "colourMenu = [mkItem MENU_ITEM_MAIN_MENU_HEADER, colourList, mkItem MENU_ITEM_END_OF_MENU]"

definition singleMenu :: "MenuItem list" where
  "singleMenu = [mkItem MENU_ITEM_MAIN_MENU_HEADER, singleList, mkItem MENU_ITEM_END_OF_MENU]"

text \<open>The colour list followed by an input item with empty text and value.\<close>

definition pickerMenu :: "MenuItem list" where
  "pickerMenu =
     [mkItem MENU_ITEM_MAIN_MENU_HEADER, colourList, mkItem MENU_ITEM_INPUT,
      mkItem MENU_ITEM_END_OF_MENU]"

text \<open>
  The engine on the picker menu after set-up on two rows, \<^verbatim>\<open>down()\<close> to the
  input item, \<^verbatim>\<open>enter()\<close>, \<^verbatim>\<open>drawChar\<close>, \<^verbatim>\<open>back()\<close>, \<^verbatim>\<open>up()\<close> to
  the list and \<^verbatim>\<open>enter()\<close>: the colour list is being edited and the
  character picker is still marked active.
\<close>

definition pickerState :: LcdMenu where
  "pickerState =
     (startState 2 [pickerMenu])\<lparr>isEditModeEnabled := True, isCharPickerActive := True,
        blinkerPosition := 2,
        events := [Redraw, Redraw, CursorDrawn, Redraw, Redraw, CursorDrawn]\<rparr>"

text \<open>
  A root menu at address 0 whose second entry links to a sub-menu at address
  1; the sub-menu's header links back to the root.
\<close>

definition rootMenu :: "MenuItem list" where
  "rootMenu =
     [mkItem MENU_ITEM_MAIN_MENU_HEADER, mkItem MENU_ITEM_COMMAND,
      (mkItem MENU_ITEM_SUB_MENU)\<lparr>subMenu := Some 1\<rparr>, mkItem MENU_ITEM_COMMAND,
      mkItem MENU_ITEM_END_OF_MENU]"

definition settingsMenu :: "MenuItem list" where
  "settingsMenu =
     [(mkItem MENU_ITEM_SUB_MENU_HEADER)\<lparr>subMenu := Some 0\<rparr>, mkItem MENU_ITEM_COMMAND,
      mkItem MENU_ITEM_COMMAND, mkItem MENU_ITEM_END_OF_MENU]"

text \<open>Five commands of which the third is hidden.\<close>

definition thirdHidden :: "MenuItem list" where
  "thirdHidden =
     [mkItem MENU_ITEM_MAIN_MENU_HEADER, mkItem MENU_ITEM_COMMAND, mkItem MENU_ITEM_COMMAND,
      (mkItem MENU_ITEM_COMMAND)\<lparr>hidden := True\<rparr>, mkItem MENU_ITEM_COMMAND,
      mkItem MENU_ITEM_COMMAND, mkItem MENU_ITEM_END_OF_MENU]"

section \<open>Scanning loops\<close>

lemma isAtTheEnd_loop_eq:
  "n = length tbl \<Longrightarrow>
   isAtTheEnd_loop tbl n i = Some (\<forall>j. i \<le> j \<and> j < n - 1 \<longrightarrow> hidden (tbl ! j))"
proof (induction tbl n i rule: isAtTheEnd_loop.induct)
  case (1 tbl n i)
  show ?case
  proof (cases "i < n")
    case False
    then show ?thesis by (subst isAtTheEnd_loop.simps) auto
  next
    case True
    show ?thesis
    proof (cases "hidden (tbl ! i)")
      case False
      with True 1(2) show ?thesis
        by (subst isAtTheEnd_loop.simps) (auto simp: less_diff_conv)
    next
      case h: True
      have "isAtTheEnd_loop tbl n (Suc i) =
              Some (\<forall>j. Suc i \<le> j \<and> j < n - 1 \<longrightarrow> hidden (tbl ! j))"
        using 1 True h by simp
      moreover have "(\<forall>j. Suc i \<le> j \<and> j < n - 1 \<longrightarrow> hidden (tbl ! j)) =
                     (\<forall>j. i \<le> j \<and> j < n - 1 \<longrightarrow> hidden (tbl ! j))"
        using h by (metis Suc_leI le_neq_implies_less Suc_leD)
      ultimately show ?thesis
        using True 1(2) h by (subst isAtTheEnd_loop.simps) simp
    qed
  qed
qed

lemma checkAllBelowHidden_loop_eq:
  "n \<le> length tbl \<Longrightarrow>
   checkAllBelowHidden_loop tbl n i = Some (\<forall>j. i \<le> j \<and> j < n \<longrightarrow> hidden (tbl ! j))"
proof (induction tbl n i rule: checkAllBelowHidden_loop.induct)
  case (1 tbl n i)
  show ?case
  proof (cases "i < n")
    case False
    then show ?thesis by (subst checkAllBelowHidden_loop.simps) auto
  next
    case True
    show ?thesis
    proof (cases "hidden (tbl ! i)")
      case False
      with True 1(2) show ?thesis
        by (subst checkAllBelowHidden_loop.simps) auto
    next
      case h: True
      have "checkAllBelowHidden_loop tbl n (Suc i) =
              Some (\<forall>j. Suc i \<le> j \<and> j < n \<longrightarrow> hidden (tbl ! j))"
        using 1 True h by simp
      moreover have "(\<forall>j. Suc i \<le> j \<and> j < n \<longrightarrow> hidden (tbl ! j)) =
                     (\<forall>j. i \<le> j \<and> j < n \<longrightarrow> hidden (tbl ! j))"
        using h by (metis Suc_leI le_neq_implies_less Suc_leD)
      ultimately show ?thesis
        using True 1(2) h by (subst checkAllBelowHidden_loop.simps) simp
    qed
  qed
qed

lemma isAtTheStart_loop_eq:
  "i < length tbl \<Longrightarrow> \<not> hidden (tbl ! 0) \<Longrightarrow>
   isAtTheStart_loop tbl i = Some (\<forall>j. 1 \<le> j \<and> j \<le> i \<longrightarrow> hidden (tbl ! j))"
proof (induction i)
  case 0
  then show ?case by simp
next
  case (Suc i)
  show ?case
  proof (cases "hidden (tbl ! Suc i)")
    case False
    with Suc.prems show ?thesis by auto
  next
    case True
    have "(\<forall>j. 1 \<le> j \<and> j \<le> i \<longrightarrow> hidden (tbl ! j)) =
          (\<forall>j. 1 \<le> j \<and> j \<le> Suc i \<longrightarrow> hidden (tbl ! j))"
      using True by (metis le_SucE le_SucI)
    with Suc True show ?thesis by simp
  qed
qed

lemma checkAllAboveHidden_loop_eq:
  "i < length tbl \<Longrightarrow>
   checkAllAboveHidden_loop tbl i = Some (\<forall>j. 1 \<le> j \<and> j \<le> i \<longrightarrow> hidden (tbl ! j))"
proof (induction i)
  case 0
  then show ?case by simp
next
  case (Suc i)
  show ?case
  proof (cases "hidden (tbl ! Suc i)")
    case False
    with Suc.prems show ?thesis by auto
  next
    case True
    have "(\<forall>j. 1 \<le> j \<and> j \<le> i \<longrightarrow> hidden (tbl ! j)) =
          (\<forall>j. 1 \<le> j \<and> j \<le> Suc i \<longrightarrow> hidden (tbl ! j))"
      using True by (metis le_SucE le_SucI)
    with Suc True show ?thesis by simp
  qed
qed

lemma getMenuSize_loop_eq:
  "s < length menu \<Longrightarrow> itemType (menu ! (length menu - 1)) = MENU_ITEM_END_OF_MENU \<Longrightarrow>
   \<forall>i. s \<le> i \<and> i < length menu - 1 \<longrightarrow> itemType (menu ! i) \<noteq> MENU_ITEM_END_OF_MENU \<Longrightarrow>
   getMenuSize_loop menu s = Some (length menu)"
proof (induction menu s rule: getMenuSize_loop.induct)
  case (1 menu s)
  show ?case
  proof (cases "s = length menu - 1")
    case True
    with 1(2,3) show ?thesis by (subst getMenuSize_loop.simps) simp
  next
    case False
    with 1(2) have lt: "s < length menu - 1" by simp
    with 1(4) have ne: "itemType (menu ! s) \<noteq> MENU_ITEM_END_OF_MENU" by simp
    have "getMenuSize_loop menu (Suc s) = Some (length menu)"
      using 1 lt ne by simp
    with 1(2) ne show ?thesis by (subst getMenuSize_loop.simps) simp
  qed
qed

lemma unat_u8_succ: "unat (w :: u8) < 255 \<Longrightarrow> unat (w + 1) = Suc (unat w)"
proof -
  assume "unat w < 255"
  then have "unat w + unat (1 :: u8) < 2 ^ LENGTH(8)" by simp
  then have "unat (w + 1) = unat w + unat (1 :: u8)" by (simp only: unat_add_lem)
  then show ?thesis by simp
qed

lemma table_cursor [simp]: "table (s\<lparr>cursorPosition := c\<rparr>) = table s"
  by (simp add: table_def)

lemma down_loop_stop:
  assumes "table s = Some tbl" and "currentMenuSize s = length tbl"
    and "isEditModeEnabled s \<or> (\<forall>i. unat (cursorPosition s) < i \<and> i < length tbl - 1 \<longrightarrow> hidden (tbl ! i))"
  shows "down_loop s n = Some (False, s, n)"
proof -
  have "isAtTheEnd s =
          Some (\<forall>i. unat (cursorPosition s) + 1 \<le> i \<and> i < length tbl - 1 \<longrightarrow> hidden (tbl ! i))"
    using assms(1,2) by (simp add: isAtTheEnd_def isAtTheEnd_loop_eq)
  moreover have "(\<forall>i. unat (cursorPosition s) + 1 \<le> i \<and> i < length tbl - 1 \<longrightarrow> hidden (tbl ! i))
       = (\<forall>i. unat (cursorPosition s) < i \<and> i < length tbl - 1 \<longrightarrow> hidden (tbl ! i))"
    by (simp add: Suc_le_eq)
  ultimately show ?thesis
    using assms(3) by (subst down_loop.simps) auto
qed

lemma down_loop_run:
  assumes "table s = Some tbl" and "currentMenuSize s = length tbl"
    and "\<not> isEditModeEnabled s" and "length tbl \<le> 256"
    and "unat (cursorPosition s) < j" and "j < length tbl - 1"
    and "\<forall>i. unat (cursorPosition s) < i \<and> i < j \<longrightarrow> hidden (tbl ! i)"
    and "\<not> hidden (tbl ! j)"
  shows "down_loop s n =
           Some (True, s\<lparr>cursorPosition := of_nat j\<rparr>, n + of_nat (j - unat (cursorPosition s)))"
  using assms
proof (induction "j - unat (cursorPosition s)" arbitrary: s n)
  case 0
  then show ?case by simp
next
  case (Suc d)
  let ?c = "unat (cursorPosition s)"
  let ?s' = "s\<lparr>cursorPosition := cursorPosition s + 1\<rparr>"
  have c255: "?c < 255" using Suc.prems by linarith
  have un: "unat (cursorPosition s + 1) = Suc ?c" using c255 by (rule unat_u8_succ)
  have "isAtTheEnd s =
          Some (\<forall>i. ?c + 1 \<le> i \<and> i < length tbl - 1 \<longrightarrow> hidden (tbl ! i))"
    using Suc.prems(1,2) by (simp add: isAtTheEnd_def isAtTheEnd_loop_eq)
  moreover have "\<not> (\<forall>i. ?c + 1 \<le> i \<and> i < length tbl - 1 \<longrightarrow> hidden (tbl ! i))"
    using Suc.prems(5,6,8) by (metis Suc_eq_plus1 Suc_leI)
  ultimately have atEnd: "isAtTheEnd s = Some False" by simp
  have inb: "Suc ?c < length tbl" using Suc.prems(5,6) by linarith
  have step: "down_loop s n =
      (if hidden (tbl ! Suc ?c) then down_loop ?s' (n + 1) else Some (True, ?s', n + 1))"
    using atEnd Suc.prems(1,3) inb un
    by (subst down_loop.simps) (simp add: itemAt_def)
  show ?case
  proof (cases "Suc ?c = j")
    case True
    have "cursorPosition s + 1 = of_nat j"
    proof -
      have "(of_nat (Suc ?c) :: u8) = of_nat ?c + 1" by simp
      then show ?thesis using True by simp
    qed
    moreover have "j - ?c = 1" using True by simp
    ultimately show ?thesis using step True Suc.prems(8) by simp
  next
    case False
    then have lt: "Suc ?c < j" using Suc.prems(5) by simp
    then have hid: "hidden (tbl ! Suc ?c)" using Suc.prems(7) by simp
    have d: "d = j - unat (cursorPosition ?s')" using Suc.hyps(2) un by simp
    have "down_loop ?s' (n + 1) =
            Some (True, ?s'\<lparr>cursorPosition := of_nat j\<rparr>, (n + 1) + of_nat (j - unat (cursorPosition ?s')))"
      using Suc.prems lt un by (intro Suc.hyps(1)[OF d]) auto
    moreover have "(n + 1) + of_nat (j - Suc ?c) = n + (of_nat (j - ?c) :: u8)"
      using lt by (metis Suc_diff_Suc Suc_lessD add.assoc of_nat_Suc add.commute plus_1_eq_Suc)
    ultimately show ?thesis using step hid un by simp
  qed
qed

lemma unat_u8_pred: "(w :: u8) \<noteq> 0 \<Longrightarrow> unat (w - 1) = unat w - 1"
  by (rule unat_minus_one)

lemma up_loop_stop:
  assumes "table s = Some tbl" and "cursorPosition s \<noteq> 0"
    and "unat (cursorPosition s) \<le> length tbl" and "\<not> hidden (tbl ! 0)"
    and "isEditModeEnabled s \<or> (\<forall>i. 1 \<le> i \<and> i < unat (cursorPosition s) \<longrightarrow> hidden (tbl ! i))"
  shows "up_loop s n = Some (False, s, n)"
proof -
  have pos: "0 < unat (cursorPosition s)" using assms(2) by (simp add: unat_gt_0)
  then have "unat (cursorPosition s) - 1 < length tbl" using assms(3) by linarith
  then have "isAtTheStart s =
          Some (\<forall>i. 1 \<le> i \<and> i \<le> unat (cursorPosition s) - 1 \<longrightarrow> hidden (tbl ! i))"
    using assms(1,2,4) by (simp add: isAtTheStart_def isAtTheStart_loop_eq)
  moreover have "\<And>i. (i \<le> unat (cursorPosition s) - 1) = (i < unat (cursorPosition s))"
    using pos by linarith
  ultimately show ?thesis
    using assms(5) by (subst up_loop.simps) auto
qed

lemma up_loop_run:
  assumes "table s = Some tbl" and "unat (cursorPosition s) \<le> length tbl"
    and "\<not> hidden (tbl ! 0)" and "\<not> isEditModeEnabled s"
    and "1 \<le> j" and "j < unat (cursorPosition s)"
    and "\<forall>i. j < i \<and> i < unat (cursorPosition s) \<longrightarrow> hidden (tbl ! i)"
    and "\<not> hidden (tbl ! j)"
  shows "up_loop s n =
           Some (True, s\<lparr>cursorPosition := of_nat j\<rparr>, n + of_nat (unat (cursorPosition s) - j))"
  using assms
proof (induction "unat (cursorPosition s) - j" arbitrary: s n)
  case 0
  then show ?case by simp
next
  case (Suc d)
  let ?c = "unat (cursorPosition s)"
  let ?s' = "s\<lparr>cursorPosition := cursorPosition s - 1\<rparr>"
  have pos: "0 < ?c" using Suc.prems(6) by linarith
  then have ne: "cursorPosition s \<noteq> 0" by (simp add: unat_gt_0)
  have un: "unat (cursorPosition s - 1) = ?c - 1" using ne by (rule unat_u8_pred)
  have inb: "?c - 1 < length tbl" using pos Suc.prems(2) by linarith
  have "isAtTheStart s = Some (\<forall>i. 1 \<le> i \<and> i \<le> ?c - 1 \<longrightarrow> hidden (tbl ! i))"
    using Suc.prems(1,3) ne inb by (simp add: isAtTheStart_def isAtTheStart_loop_eq)
  moreover have "\<not> (\<forall>i. 1 \<le> i \<and> i \<le> ?c - 1 \<longrightarrow> hidden (tbl ! i))"
  proof -
    have "1 \<le> j \<and> j \<le> ?c - 1 \<and> \<not> hidden (tbl ! j)"
      using Suc.prems(5,6,8) by linarith
    then show ?thesis by blast
  qed
  ultimately have atStart: "isAtTheStart s = Some False" by simp
  have step: "up_loop s n =
      (if hidden (tbl ! (?c - 1)) then up_loop ?s' (n + 1) else Some (True, ?s', n + 1))"
    using atStart Suc.prems(1,4) inb un
    by (subst up_loop.simps) (simp add: itemAt_def)
  show ?case
  proof (cases "?c - 1 = j")
    case True
    have "cursorPosition s - 1 = of_nat j"
    proof -
      have "(of_nat (?c - 1) :: u8) = of_nat ?c - 1" using pos by (simp add: of_nat_diff)
      then show ?thesis using True by simp
    qed
    moreover have "?c - j = 1" using True pos by simp
    ultimately show ?thesis using step True Suc.prems(8) by simp
  next
    case False
    then have lt: "j < ?c - 1" using Suc.prems(6) by linarith
    then have hid: "hidden (tbl ! (?c - 1))" using Suc.prems(7) pos by simp
    have d: "d = unat (cursorPosition ?s') - j" using Suc.hyps(2) un by simp
    have "up_loop ?s' (n + 1) =
            Some (True, ?s'\<lparr>cursorPosition := of_nat j\<rparr>, (n + 1) + of_nat (unat (cursorPosition ?s') - j))"
      using Suc.prems lt un by (intro Suc.hyps(1)[OF d]) auto
    moreover have "(n + 1) + of_nat (?c - 1 - j) = n + (of_nat (?c - j) :: u8)"
    proof -
      have "?c - j = Suc (?c - 1 - j)" using lt by linarith
      then show ?thesis by simp
    qed
    ultimately show ?thesis using step hid un by simp
  qed
qed

lemma wi_sum_pred: "(word_of_int (uint (a :: u8) + uint (b :: u8) - 1) :: u8) = a + b - 1"
  by simp

lemma wi_skip: "(word_of_int (uint (a :: u8) - sint (b :: u8) - 1) :: u8) = a - b - 1"
  by simp

lemma skip_back:
  assumes "unat (c :: u8) < j"
  shows "(of_nat j :: u8) - (- 1 + of_nat (j - unat c)) - 1 = c"
proof -
  have "(of_nat j :: u8) = of_nat (j - unat c) + of_nat (unat c)"
    using assms by (metis less_imp_le_nat of_nat_add diff_add)
  then show ?thesis by simp
qed

lemma wasAtBottom_eq:
  assumes "table s = Some tbl" and "currentMenuSize s = length tbl" and "2 \<le> length tbl"
  shows "wasAtBottom s =
     Some (if (\<forall>i. unat (cursorPosition s) < i \<and> i < length tbl - 2 \<longrightarrow> hidden (tbl ! i))
           then maxRows s \<noteq> 0 else uint (cursorLine s) = uint (maxRows s) - 1)"
proof -
  have "checkAllBelowHidden tbl (length tbl) (cursorPosition s) =
          Some (\<forall>i. unat (cursorPosition s) + 1 \<le> i \<and> i < length tbl - 2 \<longrightarrow> hidden (tbl ! i))"
    using assms(3) by (simp add: checkAllBelowHidden_def checkAllBelowHidden_loop_eq)
  moreover have "\<And>i. (unat (cursorPosition s) + 1 \<le> i) = (unat (cursorPosition s) < i)"
    by linarith
  moreover have "(uint (word_of_int (uint (maxRows s) - 1) :: u8) = uint (maxRows s) - 1)
                  = (maxRows s \<noteq> 0)"
  proof (cases "maxRows s = 0")
    case True
    have "0 \<le> uint (- 1 :: u8)" by (rule uint_ge_0)
    then have "uint (- 1 :: u8) \<noteq> - 1" by linarith
    with True show ?thesis by simp
  next
    case False
    then have "(word_of_int (uint (maxRows s) - 1) :: u8) = maxRows s - 1" by simp
    moreover have "uint (maxRows s - 1) = uint (maxRows s) - 1"
    proof -
      have "uint (maxRows s) \<noteq> 0" using False by (simp add: uint_0_iff)
      then have "1 \<le> uint (maxRows s)" using uint_ge_0[of "maxRows s"] by linarith
      then have "uint (1 :: u8) \<le> uint (maxRows s)" by simp
      then have "uint (maxRows s - 1) = uint (maxRows s) - uint (1 :: u8)"
        by (simp only: uint_sub_lem)
      then show ?thesis by simp
    qed
    ultimately show ?thesis using False by simp
  qed
  ultimately show ?thesis
    using assms(1,2) by (auto simp add: wasAtBottom_def)
qed

lemma down_fail:
  assumes "table s = Some tbl" and "currentMenuSize s = length tbl" and "2 \<le> length tbl"
    and "isEditModeEnabled s \<or>
         (\<forall>i. unat (cursorPosition s) < i \<and> i < length tbl - 1 \<longrightarrow> hidden (tbl ! i))"
  shows "down s = Some (False, s)"
  using wasAtBottom_eq[OF assms(1,2,3)] down_loop_stop[OF assms(1,2,4)]
  by (simp add: down_def)

lemma down_move:
  assumes "table s = Some tbl" and "currentMenuSize s = length tbl" and "2 \<le> length tbl"
    and "length tbl \<le> 256" and "\<not> isEditModeEnabled s"
    and "unat (cursorPosition s) < j" and "j < length tbl - 1"
    and "\<forall>i. unat (cursorPosition s) < i \<and> i < j \<longrightarrow> hidden (tbl ! i)"
    and "\<not> hidden (tbl ! j)"
    and "wasAtBottom s = Some b"
  shows "down s =
     Some (True, s\<lparr>cursorPosition := of_nat j,
                   top_pos := (if bottom s < of_nat j \<and> b then cursorPosition s else top_pos s),
                   bottom := (if bottom s < of_nat j \<and> b
                              then cursorPosition s + maxRows s - 1 else bottom s),
                   events := events s @ (if enableUpdate s then [Redraw] else [])\<rparr>)"
proof -
  have run: "down_loop s (- 1) =
      Some (True, s\<lparr>cursorPosition := of_nat j\<rparr>, - 1 + of_nat (j - unat (cursorPosition s)))"
    by (rule down_loop_run[OF assms(1,2,5,4,6,7,8,9)])
  have skipped: "(of_nat j :: u8) - (- 1 + of_nat (j - unat (cursorPosition s))) - 1 = cursorPosition s"
    by (rule skip_back[OF assms(6)])
  show ?thesis
    using assms(10) run skipped
    by (simp add: down_def update_def notify_def Let_def)
qed

lemma wasAtTop_eq:
  assumes "table s = Some tbl" and "cursorPosition s \<noteq> 0"
    and "unat (cursorPosition s) \<le> length tbl"
  shows "wasAtTop s =
     Some ((\<forall>i. 1 \<le> i \<and> i < unat (cursorPosition s) \<longrightarrow> hidden (tbl ! i)) \<or> cursorLine s = 0)"
proof -
  have pos: "0 < unat (cursorPosition s)" using assms(2) by (simp add: unat_gt_0)
  then have "unat (cursorPosition s) - 1 < length tbl" using assms(3) by linarith
  then have "checkAllAboveHidden tbl (cursorPosition s) =
          Some (\<forall>i. 1 \<le> i \<and> i \<le> unat (cursorPosition s) - 1 \<longrightarrow> hidden (tbl ! i))"
    using assms(2) by (simp add: checkAllAboveHidden_def checkAllAboveHidden_loop_eq)
  moreover have "\<And>i. (i \<le> unat (cursorPosition s) - 1) = (i < unat (cursorPosition s))"
    using pos by linarith
  ultimately show ?thesis
    using assms(1) by (auto simp add: wasAtTop_def)
qed

lemma up_fail:
  assumes "table s = Some tbl" and "cursorPosition s \<noteq> 0"
    and "unat (cursorPosition s) \<le> length tbl" and "\<not> hidden (tbl ! 0)"
    and "isEditModeEnabled s \<or>
         (\<forall>i. 1 \<le> i \<and> i < unat (cursorPosition s) \<longrightarrow> hidden (tbl ! i))"
  shows "up s = Some (False, s)"
  using wasAtTop_eq[OF assms(1,2,3)] up_loop_stop[OF assms(1,2,3,4,5)]
  by (simp add: up_def)

lemma up_move:
  assumes "table s = Some tbl" and "unat (cursorPosition s) \<le> length tbl"
    and "\<not> hidden (tbl ! 0)" and "\<not> isEditModeEnabled s"
    and "1 \<le> j" and "j < unat (cursorPosition s)"
    and "\<forall>i. j < i \<and> i < unat (cursorPosition s) \<longrightarrow> hidden (tbl ! i)"
    and "\<not> hidden (tbl ! j)"
    and "wasAtTop s = Some b"
  shows "up s =
     Some (True, s\<lparr>cursorPosition := of_nat j,
                   top_pos := (if of_nat j < top_pos s \<and> b then of_nat j else top_pos s),
                   bottom := (if of_nat j < top_pos s \<and> b
                              then of_nat j + maxRows s - 1 else bottom s),
                   events := events s @ (if enableUpdate s then [Redraw] else [])\<rparr>)"
proof -
  have run: "up_loop s 1 =
      Some (True, s\<lparr>cursorPosition := of_nat j\<rparr>, 1 + of_nat (unat (cursorPosition s) - j))"
    by (rule up_loop_run[OF assms(1,2,3,4,5,6,7,8)])
  show ?thesis
    using assms(9) run
    by (simp add: up_def update_def notify_def Let_def)
qed

text \<open>Equations that evaluate \<^verbatim>\<open>down()\<close> on a concrete menu.\<close>

lemmas down_eval = table_def itemAt_def update_def notify_def down_def down_loop.simps
  wasAtBottom_def checkAllBelowHidden_def checkAllBelowHidden_loop.simps
  isAtTheEnd_def isAtTheEnd_loop.simps cursorLine_def constrain_def

section \<open>Index arithmetic\<close>

lemma unat_u8_bound: "unat (n :: u8) < 256"
  using unsigned_less[of n, where 'a = nat] by simp

lemma uint_u8_bound: "uint (n :: u8) < 256"
  using unsigned_less[of n, where 'a = int] by simp

lemma constrain_id: "0 \<le> v \<Longrightarrow> v \<le> hi \<Longrightarrow> constrain v 0 hi = v"
  by (simp add: constrain_def)

lemma int_le_uint_pred: "v < unat (n :: u8) \<Longrightarrow> int v \<le> uint n - 1"
proof -
  assume "v < unat n"
  then have "int v < int (unat n)" by (simp only: of_nat_less_iff)
  then have "int v < uint n" by (simp only: uint_nat)
  then show ?thesis by linarith
qed

lemma uint_of_nat_u16: "v < 256 \<Longrightarrow> uint (of_nat v :: u16) = int v"
  unfolding uint_nat by (simp add: unat_of_nat)

lemma wrap_index:
  assumes "unat (i :: u16) < unat (n :: u8)"
  shows "(word_of_int (constrain (uint (word_of_int ((uint i + 1) mod uint n) :: u16)) 0 (uint n - 1)) :: u16)
           = of_nat (Suc (unat i) mod unat n)"
proof -
  let ?v = "Suc (unat i) mod unat n"
  have npos: "0 < unat n" using assms by linarith
  have vlt: "?v < unat n" using npos by simp
  have v8: "?v < 256" by (rule less_trans[OF vlt unat_u8_bound])
  have a: "(uint i + 1) mod uint n = int ?v"
    by (simp add: zmod_int add.commute)
  have b: "uint (of_nat ?v :: u16) = int ?v" using v8 by (rule uint_of_nat_u16)
  have c: "constrain (int ?v) 0 (uint n - 1) = int ?v"
    by (rule constrain_id[OF _ int_le_uint_pred[OF vlt]]) simp
  show ?thesis by (simp only: a b c of_int_of_nat_eq)
qed

lemma step_back_index:
  assumes "unat (i :: u16) < unat (n :: u8)"
  shows "(word_of_int (constrain (uint (word_of_int (uint i - 1) :: u16)) 0 (uint n - 1)) :: u16)
           = of_nat (if unat i = 0 then unat n - 1 else unat i - 1)"
proof (cases "unat i = 0")
  case True
  then have i0: "i = 0" by (simp add: unat_0_iff)
  have m: "uint (word_of_int (- 1) :: u16) = 65535"
    by (simp add: unsigned_minus_1_eq_mask mask_eq_exp_minus_1)
  have "uint n - 1 < 65535" using uint_u8_bound[of n] by linarith
  then have k: "constrain 65535 0 (uint n - 1) = uint n - 1"
    by (simp add: constrain_def)
  have "(word_of_int (uint n - 1) :: u16) = of_nat (unat n - 1)"
    using assms by (simp add: of_nat_diff)
  then show ?thesis using True i0 m k by simp
next
  case False
  then have pos: "0 < unat i" by simp
  have ltn: "unat i - 1 < unat n" using assms by linarith
  then have lt: "unat i - 1 < 256" by (rule less_trans[OF _ unat_u8_bound])
  have a: "(word_of_int (uint i - 1) :: u16) = of_nat (unat i - 1)"
    using pos by (simp add: of_nat_diff)
  have b: "uint (of_nat (unat i - 1) :: u16) = int (unat i - 1)" using lt by (rule uint_of_nat_u16)
  have c: "constrain (int (unat i - 1)) 0 (uint n - 1) = int (unat i - 1)"
    by (rule constrain_id[OF _ int_le_uint_pred[OF ltn]]) simp
  show ?thesis using False by (simp only: a b c of_int_of_nat_eq if_False)
qed

section \<open>Gestures on a list item\<close>

lemma cursorItem_SomeD:
  assumes "cursorItem s = Some it"
  shows "currentMenuTable s < length (heap s)"
    and "unat (cursorPosition s) < length (heap s ! currentMenuTable s)"
    and "heap s ! currentMenuTable s ! unat (cursorPosition s) = it"
    and "table s = Some (heap s ! currentMenuTable s)"
  using assms
  by (auto simp: cursorItem_def table_def tableAt_def itemAt_def split: if_splits)

lemma cursorItem_putItem:
  assumes "cursorItem s = Some it"
  shows "cursorItem (putItem s (unat (cursorPosition s)) it') = Some it'"
  using cursorItem_SomeD[OF assms]
  by (simp add: cursorItem_def table_def tableAt_def itemAt_def putItem_def)

lemma cursorItem_frame [simp]:
  "cursorItem (update s) = cursorItem s"
  "cursorItem (notify evs s) = cursorItem s"
  "cursorItem (s\<lparr>events := e\<rparr>) = cursorItem s"
  "cursorItem (s\<lparr>isEditModeEnabled := b\<rparr>) = cursorItem s"
  by (simp_all add: cursorItem_def table_def update_def notify_def)

lemma putItem_same:
  assumes "cursorItem s = Some it"
  shows "putItem s (unat (cursorPosition s)) it = s"
proof -
  note d = cursorItem_SomeD[OF assms]
  have "(heap s ! currentMenuTable s)[unat (cursorPosition s) := it] = heap s ! currentMenuTable s"
    using d(3) by (metis list_update_id)
  then show ?thesis by (simp add: putItem_def)
qed

lemma putItem_twice:
  "putItem (putItem s i a) i b = putItem s i b"
  by (cases "currentMenuTable s < length (heap s)") (simp_all add: putItem_def list_update_beyond)

lemma right_list:
  assumes "cursorItem s = Some it" and "itemType it = MENU_ITEM_LIST"
    and "unat (itemIndex it) < unat (itemCount it)"
    and "\<not> (isEditModeEnabled s \<and> isCharPickerActive s)"
  shows "right M s =
           Some (update (notify
             (if hasChangeCallback it
              then [ValueChanged (of_nat (Suc (unat (itemIndex it)) mod unat (itemCount it)))] else [])
             (putItem s (unat (cursorPosition s))
                (it\<lparr>itemIndex := of_nat (Suc (unat (itemIndex it)) mod unat (itemCount it))\<rparr>))))"
proof -
  have ne: "itemCount it \<noteq> 0" using assms(3) by (auto simp: unat_0_iff)
  have act: "(isInEditMode s \<and> isCharPickerActive s) = False"
    using assms(4) by (simp add: isInEditMode_def)
  show ?thesis
    unfolding right_def act
    using cursorItem_SomeD[OF assms(1)] assms(2) ne wrap_index[OF assms(3)]
    by (simp add: itemAt_def setItemIndex_def getItemIndex_def Let_def)
qed

lemma left_list:
  assumes "cursorItem s = Some it" and "itemType it = MENU_ITEM_LIST"
    and "unat (itemIndex it) < unat (itemCount it)"
    and "\<not> (isEditModeEnabled s \<and> isCharPickerActive s)"
    and "i' = (of_nat (if unat (itemIndex it) = 0 then unat (itemCount it) - 1
                       else unat (itemIndex it) - 1) :: u16)"
  shows "left m s =
           Some ((if itemIndex it \<noteq> i' then update else id) (notify
             (if hasChangeCallback it then [ValueChanged i'] else [])
             (putItem s (unat (cursorPosition s)) (it\<lparr>itemIndex := i'\<rparr>))))"
proof -
  have "unat (itemIndex it) < 256" by (rule less_trans[OF assms(3) unat_u8_bound])
  then have "uint (itemIndex it) < 256" unfolding uint_nat by linarith
  then have small: "uint (ucast (itemIndex it) :: u8) = uint (itemIndex it)"
    by (simp add: unsigned_ucast_eq take_bit_int_eq_self)
  have cmp: "(uint (itemIndex it) \<noteq> uint i') = (itemIndex it \<noteq> i')"
    by (simp add: word_uint_eq_iff)
  have act: "(isInEditMode s \<and> isCharPickerActive s) = False"
    using assms(4) by (simp add: isInEditMode_def)
  have idx: "(word_of_int (constrain (uint (word_of_int (uint (itemIndex it) - 1) :: u16)) 0
                 (uint (itemCount it) - 1)) :: u16) = i'"
    unfolding assms(5) by (rule step_back_index[OF assms(3)])
  show ?thesis
    unfolding left_def act
    using cursorItem_SomeD[OF assms(1)] assms(2) idx small cmp
    by (simp add: itemAt_def setItemIndex_def getItemIndex_def Let_def)
qed

lemma unat_of_nat_u16: "v < 256 \<Longrightarrow> unat (of_nat v :: u16) = v"
  by (simp add: unat_of_nat)

lemma frame_fields [simp]:
  "cursorPosition (update s) = cursorPosition s"
  "cursorPosition (notify evs s) = cursorPosition s"
  "cursorPosition (putItem s i it) = cursorPosition s"
  "isEditModeEnabled (update s) = isEditModeEnabled s"
  "isEditModeEnabled (notify evs s) = isEditModeEnabled s"
  "isEditModeEnabled (putItem s i it) = isEditModeEnabled s"
  "isCharPickerActive (update s) = isCharPickerActive s"
  "isCharPickerActive (notify evs s) = isCharPickerActive s"
  "isCharPickerActive (putItem s i it) = isCharPickerActive s"
  "currentMenuTable (update s) = currentMenuTable s"
  "currentMenuTable (notify evs s) = currentMenuTable s"
  "currentMenuTable (putItem s i it) = currentMenuTable s"
  by (simp_all add: update_def notify_def putItem_def)

lemma list_item_fields [simp]:
  "itemType (it\<lparr>itemIndex := v\<rparr>) = itemType it"
  "itemCount (it\<lparr>itemIndex := v\<rparr>) = itemCount it"
  "itemIndex (it\<lparr>itemIndex := v\<rparr>) = v"
  "it\<lparr>itemIndex := v\<rparr>\<lparr>itemIndex := w\<rparr> = it\<lparr>itemIndex := w\<rparr>"
  "it\<lparr>itemIndex := itemIndex it\<rparr> = it"
  by simp_all

lemma right_list_item:
  assumes "cursorItem s = Some it" and "itemType it = MENU_ITEM_LIST"
    and "unat (itemIndex it) < unat (itemCount it)"
    and "\<not> (isEditModeEnabled s \<and> isCharPickerActive s)"
  shows "\<exists>s'. right M s = Some s' \<and>
           cursorItem s' =
             Some (it\<lparr>itemIndex := of_nat (Suc (unat (itemIndex it)) mod unat (itemCount it))\<rparr>) \<and>
           isEditModeEnabled s' = isEditModeEnabled s \<and>
           isCharPickerActive s' = isCharPickerActive s"
  using right_list[OF assms, of M] cursorItem_putItem[OF assms(1)]
  by simp

lemma left_list_item:
  assumes "cursorItem s = Some it" and "itemType it = MENU_ITEM_LIST"
    and "unat (itemIndex it) < unat (itemCount it)"
    and "\<not> (isEditModeEnabled s \<and> isCharPickerActive s)"
  shows "\<exists>s'. left m s = Some s' \<and>
           cursorItem s' =
             Some (it\<lparr>itemIndex := of_nat (if unat (itemIndex it) = 0 then unat (itemCount it) - 1
                                             else unat (itemIndex it) - 1)\<rparr>) \<and>
           isEditModeEnabled s' = isEditModeEnabled s \<and>
           isCharPickerActive s' = isCharPickerActive s"
  using left_list[OF assms refl, of m] cursorItem_putItem[OF assms(1)]
  by (simp del: of_nat_diff)

lemma rights_list_item:
  assumes "cursorItem s = Some it" and "itemType it = MENU_ITEM_LIST"
    and "unat (itemIndex it) < unat (itemCount it)"
    and "\<not> (isEditModeEnabled s \<and> isCharPickerActive s)"
  shows "\<exists>s'. repeatM k (right M) s = Some s' \<and>
           cursorItem s' =
             Some (it\<lparr>itemIndex := of_nat ((unat (itemIndex it) + k) mod unat (itemCount it))\<rparr>)"
  using assms
proof (induction k arbitrary: s it)
  case 0
  then show ?case by simp
next
  case (Suc k)
  let ?n = "unat (itemCount it)"
  let ?it1 = "it\<lparr>itemIndex := of_nat (Suc (unat (itemIndex it)) mod ?n)\<rparr>"
  obtain s1 where s1: "right M s = Some s1" "cursorItem s1 = Some ?it1"
      "isEditModeEnabled s1 = isEditModeEnabled s" "isCharPickerActive s1 = isCharPickerActive s"
    using right_list_item[OF Suc.prems, of M] by blast
  have npos: "0 < ?n" using Suc.prems(3) by linarith
  have lt: "Suc (unat (itemIndex it)) mod ?n < ?n" using npos by simp
  then have "Suc (unat (itemIndex it)) mod ?n < 256" by (rule less_trans[OF _ unat_u8_bound])
  then have un: "unat (itemIndex ?it1) = Suc (unat (itemIndex it)) mod ?n"
    by (simp add: unat_of_nat_u16)
  have "\<exists>s'. repeatM k (right M) s1 = Some s' \<and>
           cursorItem s' =
             Some (?it1\<lparr>itemIndex := of_nat ((unat (itemIndex ?it1) + k) mod unat (itemCount ?it1))\<rparr>)"
    using s1 Suc.prems(2,4) lt un by (intro Suc.IH) simp_all
  moreover have "(Suc (unat (itemIndex it)) mod ?n + k) mod ?n = (unat (itemIndex it) + Suc k) mod ?n"
    by (simp add: mod_add_left_eq)
  ultimately show ?case using s1(1) un by simp
qed

lemma events_frame [simp]:
  "events (update s) = events s @ (if enableUpdate s then [Redraw] else [])"
  "events (notify evs s) = events s @ evs"
  "events (putItem s i it) = events s"
  "enableUpdate (update s) = enableUpdate s"
  "enableUpdate (notify evs s) = enableUpdate s"
  "enableUpdate (putItem s i it) = enableUpdate s"
  by (simp_all add: update_def notify_def putItem_def)

lemmas example_defs = startState_def colourMenu_def colourList_def singleMenu_def singleList_def
  mkItem_def cursorItem_def table_def tableAt_def itemAt_def

section \<open>Edit mode\<close>

lemma sameNav_refl [simp]: "sameNav s s"
  by (simp add: sameNav_def)

lemma sameNav_trans: "sameNav a b \<Longrightarrow> sameNav b c \<Longrightarrow> sameNav a c"
  by (simp add: sameNav_def)

lemma sameNav_frame [simp]:
  "sameNav s (update s)"
  "sameNav s (notify evs s)"
  "sameNav s (putItem s i it)"
  "sameNav s (update (putItem s i it))"
  "sameNav s (update (notify evs (putItem s i it)))"
  "sameNav s (notify evs (putItem s i it))"
  by (simp_all add: sameNav_def update_def notify_def putItem_def)

lemma sameSnapshot_refl [simp]: "sameSnapshot it it"
  by (simp add: sameSnapshot_def)

lemma sameSnapshot_trans: "sameSnapshot a b \<Longrightarrow> sameSnapshot b c \<Longrightarrow> sameSnapshot a c"
  by (simp add: sameSnapshot_def)

lemma gesture_frame:
  assumes "cursorItem s = Some it"
    and "itemType it = MENU_ITEM_LIST \<or> itemType it = MENU_ITEM_PROGRESS"
    and "itemCount it \<noteq> 0 \<or> itemType it = MENU_ITEM_PROGRESS"
  shows "\<exists>s' it'. applyGesture m M g s = Some s' \<and> cursorItem s' = Some it' \<and>
           sameNav s s' \<and> sameSnapshot it it'"
proof (cases "isInEditMode s \<and> isCharPickerActive s")
  case True
  then show ?thesis using assms(1) by (cases g) (auto simp: left_def right_def)
next
  case False
  note d = cursorItem_SomeD[OF assms(1)]
  note p = cursorItem_putItem[OF assms(1)]
  from assms(2) show ?thesis
  proof
    assume l: "itemType it = MENU_ITEM_LIST"
    then have n: "itemCount it \<noteq> 0" using assms(3) by auto
    show ?thesis
    proof (cases g)
      case CycleLeft
      then show ?thesis
        using False d p l
        by (auto simp: left_def itemAt_def setItemIndex_def Let_def sameSnapshot_def)
    next
      case CycleRight
      then show ?thesis
        using False d p l n
        by (auto simp: right_def itemAt_def setItemIndex_def Let_def sameSnapshot_def)
    qed
  next
    assume l: "itemType it = MENU_ITEM_PROGRESS"
    show ?thesis
    proof (cases g)
      case CycleLeft
      then show ?thesis
        using False d p l assms(1)
        by (auto simp: left_def itemAt_def decrement_def sameSnapshot_def)
    next
      case CycleRight
      then show ?thesis
        using False d p l assms(1)
        by (auto simp: right_def itemAt_def increment_def sameSnapshot_def)
    qed
  qed
qed

lemma gestures_frame:
  assumes "cursorItem s = Some it"
    and "itemType it = MENU_ITEM_LIST \<or> itemType it = MENU_ITEM_PROGRESS"
    and "itemCount it \<noteq> 0 \<or> itemType it = MENU_ITEM_PROGRESS"
  shows "\<exists>s' it'. applyGestures m M gs s = Some s' \<and> cursorItem s' = Some it' \<and>
           sameNav s s' \<and> sameSnapshot it it'"
  using assms
proof (induction gs arbitrary: s it)
  case Nil
  then show ?case by simp
next
  case (Cons g gs)
  obtain s1 it1 where a: "applyGesture m M g s = Some s1" "cursorItem s1 = Some it1"
      "sameNav s s1" "sameSnapshot it it1"
    using gesture_frame[OF Cons.prems, of m M g] by blast
  have t: "itemType it1 = MENU_ITEM_LIST \<or> itemType it1 = MENU_ITEM_PROGRESS"
    "itemCount it1 \<noteq> 0 \<or> itemType it1 = MENU_ITEM_PROGRESS"
    using Cons.prems(2,3) a(4) by (auto simp: sameSnapshot_def)
  obtain s2 it2 where b: "applyGestures m M gs s1 = Some s2" "cursorItem s2 = Some it2"
      "sameNav s1 s2" "sameSnapshot it1 it2"
    using Cons.IH[OF a(2) t] by blast
  show ?case
    using a(1) b(1,2) sameNav_trans[OF a(3) b(3)] sameSnapshot_trans[OF a(4) b(4)]
    by auto
qed

lemma enter_edit:
  assumes "cursorItem s = Some it"
    and "itemType it = MENU_ITEM_LIST \<or> itemType it = MENU_ITEM_PROGRESS"
    and "\<not> isEditModeEnabled s"
  shows "enter s =
           Some (drawCursor (putItem (s\<lparr>isEditModeEnabled := True\<rparr>)
                   (unat (cursorPosition s)) (saveProgress it)))"
  using cursorItem_SomeD[OF assms(1)] assms(2,3)
  by (auto simp: enter_def enterEdit_def isInEditMode_def itemAt_def)

lemma backpress_edit:
  assumes "cursorItem s = Some it"
    and "itemType it = MENU_ITEM_LIST \<or> itemType it = MENU_ITEM_PROGRESS"
    and "isEditModeEnabled s"
  shows "backpress c s = Some (commitEdit c s it)"
  using cursorItem_SomeD[OF assms(1)] assms(2,3)
  by (auto simp: backpress_def isInEditMode_def itemAt_def)

lemma commitEdit_facts:
  assumes "cursorItem s = Some it"
  shows "cursorItem (commitEdit c s it) = Some (if c then restoreProgress it else it)"
    and "\<not> isEditModeEnabled (commitEdit c s it)"
    and "currentMenuTable (commitEdit c s it) = currentMenuTable s"
    and "events (commitEdit c s it) =
           events s @ (if hasCallback it
                       then [EditCommitted (getItemIndex (if c then restoreProgress it else it))]
                       else [])
                    @ (if enableUpdate s then [Redraw] else [])"
proof -
  have a: "cursorItem (s\<lparr>isEditModeEnabled := False\<rparr>) = Some it" using assms by simp
  have cp: "cursorPosition (s\<lparr>isEditModeEnabled := False\<rparr>) = cursorPosition s" by simp
  note p = cursorItem_putItem[OF a, unfolded cp]
  have h: "hasCallback (restoreProgress it) = hasCallback it"
    by (simp add: restoreProgress_def)
  show "cursorItem (commitEdit c s it) = Some (if c then restoreProgress it else it)"
    using p by (simp add: commitEdit_def Let_def)
  show "\<not> isEditModeEnabled (commitEdit c s it)"
    by (simp add: commitEdit_def Let_def)
  show "currentMenuTable (commitEdit c s it) = currentMenuTable s"
    by (simp add: commitEdit_def Let_def)
  show "events (commitEdit c s it) =
           events s @ (if hasCallback it
                       then [EditCommitted (getItemIndex (if c then restoreProgress it else it))]
                       else [])
                    @ (if enableUpdate s then [Redraw] else [])"
    using h by (simp add: commitEdit_def Let_def)
qed

lemma restore_after_save:
  assumes "sameSnapshot (saveProgress it) it2"
  shows "getItemIndex (restoreProgress it2) = getItemIndex it"
  using assms
  by (auto simp: sameSnapshot_def saveProgress_def restoreProgress_def getItemIndex_def
      split: if_splits)

lemmas gesture_eval = right_def left_def enter_def enterEdit_def backpress_def commitEdit_def
  isInEditMode_def setItemIndex_def getItemIndex_def saveProgress_def restoreProgress_def
  constrain_def update_def notify_def putItem_def drawCursor_def

section \<open>Entering and leaving a sub-menu\<close>

lemma getMenuSize_loop_cong:
  "map itemType menu' = map itemType menu \<Longrightarrow>
   getMenuSize_loop menu' s = getMenuSize_loop menu s"
proof (induction menu s rule: getMenuSize_loop.induct)
  case (1 menu s)
  have "length (map itemType menu') = length (map itemType menu)" using 1(2) by simp
  then have len: "length menu' = length menu" by simp
  have ty: "s < length menu \<Longrightarrow> itemType (menu' ! s) = itemType (menu ! s)"
  proof -
    assume a: "s < length menu"
    have "map itemType menu' ! s = map itemType menu ! s" using 1(2) by simp
    then show ?thesis using a len by simp
  qed
  have rec: "s < length menu \<Longrightarrow> itemType (menu ! s) \<noteq> MENU_ITEM_END_OF_MENU \<Longrightarrow>
             getMenuSize_loop menu' (Suc s) = getMenuSize_loop menu (Suc s)"
    by (rule 1(1)[OF _ _ 1(2)])
  have L: "getMenuSize_loop menu' s =
     (if s < length menu'
      then (if itemType (menu' ! s) \<noteq> MENU_ITEM_END_OF_MENU then getMenuSize_loop menu' (Suc s)
            else Some (Suc s))
      else None)"
    by (rule getMenuSize_loop.simps)
  have R: "getMenuSize_loop menu s =
     (if s < length menu
      then (if itemType (menu ! s) \<noteq> MENU_ITEM_END_OF_MENU then getMenuSize_loop menu (Suc s)
            else Some (Suc s))
      else None)"
    by (rule getMenuSize_loop.simps)
  show ?case
  proof (cases "s < length menu")
    case False
    then show ?thesis unfolding L R using len by simp
  next
    case True
    note t = ty[OF True]
    show ?thesis
    proof (cases "itemType (menu ! s) = MENU_ITEM_END_OF_MENU")
      case e: True
      then show ?thesis unfolding L R using len t True by simp
    next
      case e: False
      show ?thesis unfolding L R using len t True e rec[OF True e] by simp
    qed
  qed
qed

lemma getMenuSize_cong:
  "map itemType menu' = map itemType menu \<Longrightarrow> getMenuSize menu' = getMenuSize menu"
  unfolding getMenuSize_def by (rule getMenuSize_loop_cong)

lemma map_header_update:
  assumes "f hdr' = f (tbl ! 0)"
  shows "map f (tbl[0 := hdr']) = map f tbl"
proof (cases tbl)
  case Nil
  then show ?thesis by simp
next
  case (Cons a as)
  then show ?thesis using assms by simp
qed

lemma table_SomeD:
  assumes "table s = Some tbl"
  shows "currentMenuTable s < length (heap s)" and "heap s ! currentMenuTable s = tbl"
  using assms by (auto simp: table_def tableAt_def split: if_splits)

lemma tableAt_SomeD:
  assumes "tableAt h a = Some tbl"
  shows "a < length h" and "h ! a = tbl"
  using assms by (auto simp: tableAt_def split: if_splits)

lemma enterSubMenu_eq:
  assumes "table s = Some tbl" and "subMenu it = Some child" and "child < length (heap s)"
    and "isHeader (tbl ! 0)" and "0 < length tbl"
    and "hdr' = (tbl ! 0)\<lparr>hdrTop := top_pos s, hdrBottom := bottom s,
                           hdrCursorPosition := cursorPosition s\<rparr>"
    and "heap1 = (heap s)[currentMenuTable s := tbl[0 := hdr']]"
    and "getMenuSize (heap1 ! child) = Some n"
  shows "enterSubMenu s it =
     Some (update (s\<lparr>heap := heap1, top_pos := 1, bottom := maxRows s, cursorPosition := 1,
                      currentMenuTable := child, currentMenuSize := n\<rparr>))"
  using table_SomeD[OF assms(1)] assms(2-5) assms(8)[unfolded assms(7) assms(6)]
  unfolding assms(7) assms(6)
  by (simp add: enterSubMenu_def assms(1) itemAt_def saveMemento_def putItem_def
      table_def tableAt_def Let_def)

lemma leaveSubMenu_eq:
  assumes "subMenu hdr = Some parent" and "tableAt (heap s) parent = Some ptbl"
    and "getMenuSize ptbl = Some n" and "0 < length ptbl" and "isHeader (ptbl ! 0)"
  shows "leaveSubMenu s hdr =
     Some (update (s\<lparr>currentMenuTable := parent, currentMenuSize := n,
                      top_pos := hdrTop (ptbl ! 0), bottom := hdrBottom (ptbl ! 0),
                      cursorPosition := hdrCursorPosition (ptbl ! 0)\<rparr>))"
  using assms
  by (simp add: leaveSubMenu_def table_def itemAt_def loadMemento_def Let_def)

lemma backpress_browsing_sub:
  assumes "table s = Some tbl" and "unat (cursorPosition s) < length tbl"
    and "\<not> isEditModeEnabled s" and "itemType (tbl ! 0) = MENU_ITEM_SUB_MENU_HEADER"
  shows "backpress c s = leaveSubMenu s (tbl ! 0)"
proof -
  have "0 < length tbl" using assms(2) by linarith
  then show ?thesis
    using assms
    by (simp add: backpress_def isInEditMode_def itemAt_def leaveIfSubMenu_def isSubMenu_def)
qed

lemmas menu_defs = rootMenu_def settingsMenu_def mkItem_def

lemma example_sizes:
  "getMenuSize rootMenu = Some 5" "getMenuSize settingsMenu = Some 4"
  by (simp_all add: getMenuSize_def getMenuSize_loop.simps menu_defs)

section \<open>The two outcomes of a move\<close>

lemma visibleIn_iff: "visibleIn tbl a b \<longleftrightarrow> (\<exists>i. a \<le> i \<and> i < b \<and> \<not> hidden (tbl ! i))"
  by (auto simp: visibleIn_def list_ex_iff)

lemma wf_tableD:
  assumes "wf_table tbl"
  shows "3 \<le> length tbl" and "length tbl \<le> 256" and "isHeader (tbl ! 0)"
    and "\<not> hidden (tbl ! 0)"
    and "itemType (tbl ! (length tbl - 1)) = MENU_ITEM_END_OF_MENU"
    and "\<And>i. 1 \<le> i \<Longrightarrow> i < length tbl - 1 \<Longrightarrow> \<not> isStructural (tbl ! i)"
  using assms by (auto simp: wf_table_def list_all_iff)

lemma first_visible_after:
  assumes "\<exists>i. c < i \<and> i < n \<and> \<not> hidden (tbl ! i)"
  shows "\<exists>j. c < j \<and> j < n \<and> \<not> hidden (tbl ! j) \<and> (\<forall>i. c < i \<and> i < j \<longrightarrow> hidden (tbl ! i))"
proof -
  let ?P = "\<lambda>i. c < i \<and> i < n \<and> \<not> hidden (tbl ! i)"
  from assms have "\<exists>i. ?P i" .
  then obtain j where j: "?P j" "\<forall>m<j. \<not> ?P m"
    using exists_least_iff[of ?P] by blast
  have "\<forall>i. c < i \<and> i < j \<longrightarrow> hidden (tbl ! i)"
  proof (intro allI impI)
    fix i assume a: "c < i \<and> i < j"
    then have "\<not> ?P i" using j(2) by blast
    moreover have "i < n" using a j(1) by linarith
    ultimately show "hidden (tbl ! i)" using a by blast
  qed
  then show ?thesis using j(1) by blast
qed

lemma last_visible_before:
  "\<exists>i. a \<le> i \<and> i < c \<and> \<not> hidden (tbl ! i) \<Longrightarrow>
   \<exists>j. a \<le> j \<and> j < c \<and> \<not> hidden (tbl ! j) \<and> (\<forall>i. j < i \<and> i < c \<longrightarrow> hidden (tbl ! i))"
proof (induction c)
  case 0
  then show ?case by simp
next
  case (Suc c)
  show ?case
  proof (cases "a \<le> c \<and> \<not> hidden (tbl ! c)")
    case True
    have "\<forall>i. c < i \<and> i < Suc c \<longrightarrow> hidden (tbl ! i)" by auto
    then show ?thesis using True by blast
  next
    case False
    from Suc.prems obtain i where i: "a \<le> i" "i < Suc c" "\<not> hidden (tbl ! i)" by blast
    then have "i \<noteq> c" using False by blast
    then have "i < c" using i(2) by linarith
    then have "\<exists>i. a \<le> i \<and> i < c \<and> \<not> hidden (tbl ! i)" using i by blast
    then obtain j where j: "a \<le> j" "j < c" "\<not> hidden (tbl ! j)"
        "\<forall>i. j < i \<and> i < c \<longrightarrow> hidden (tbl ! i)"
      using Suc.IH by blast
    have "\<forall>i. j < i \<and> i < Suc c \<longrightarrow> hidden (tbl ! i)"
    proof (intro allI impI)
      fix k assume k: "j < k \<and> k < Suc c"
      show "hidden (tbl ! k)"
      proof (cases "k = c")
        case True
        then show ?thesis using False j(1,2) by auto
      next
        case False
        then have "k < c" using k by linarith
        then show ?thesis using j(4) k by blast
      qed
    qed
    then show ?thesis using j(1,2,3) by (meson less_SucI)
  qed
qed

lemma down_stay:
  assumes "table s = Some tbl" and "currentMenuSize s = length tbl" and "2 \<le> length tbl"
    and "isEditModeEnabled s \<or> \<not> visibleIn tbl (unat (cursorPosition s) + 1) (length tbl - 1)"
  shows "down s = Some (False, s)"
proof -
  have "isEditModeEnabled s \<or>
         (\<forall>i. unat (cursorPosition s) < i \<and> i < length tbl - 1 \<longrightarrow> hidden (tbl ! i))"
    using assms(4) by (auto simp: visibleIn_iff Suc_le_eq)
  then show ?thesis by (rule down_fail[OF assms(1,2,3)])
qed

lemma down_go:
  assumes "table s = Some tbl" and "currentMenuSize s = length tbl"
    and "2 \<le> length tbl" and "length tbl \<le> 256"
    and "\<not> isEditModeEnabled s"
    and "visibleIn tbl (unat (cursorPosition s) + 1) (length tbl - 1)"
  shows "\<exists>j b. unat (cursorPosition s) < j \<and> j < length tbl - 1 \<and>
             (\<forall>i. unat (cursorPosition s) < i \<and> i < j \<longrightarrow> hidden (tbl ! i)) \<and>
             \<not> hidden (tbl ! j) \<and> wasAtBottom s = Some b \<and>
             down s =
               Some (True, s\<lparr>cursorPosition := of_nat j,
                   top_pos := (if bottom s < of_nat j \<and> b then cursorPosition s else top_pos s),
                   bottom := (if bottom s < of_nat j \<and> b
                              then cursorPosition s + maxRows s - 1 else bottom s),
                   events := events s @ (if enableUpdate s then [Redraw] else [])\<rparr>)"
proof -
  have "\<exists>i. unat (cursorPosition s) < i \<and> i < length tbl - 1 \<and> \<not> hidden (tbl ! i)"
    using assms(6) by (auto simp: visibleIn_iff Suc_le_eq)
  then obtain j where j: "unat (cursorPosition s) < j" "j < length tbl - 1" "\<not> hidden (tbl ! j)"
      "\<forall>i. unat (cursorPosition s) < i \<and> i < j \<longrightarrow> hidden (tbl ! i)"
    using first_visible_after[of "unat (cursorPosition s)" "length tbl - 1" tbl] by blast
  obtain b where b: "wasAtBottom s = Some b"
    using wasAtBottom_eq[OF assms(1,2,3)] by blast
  note m = down_move[OF assms(1,2,3,4,5) j(1,2,4,3) b]
  show ?thesis
    by (rule exI[of _ j], rule exI[of _ b]) (intro conjI j b m)
qed

lemma up_stay:
  assumes "table s = Some tbl" and "cursorPosition s \<noteq> 0"
    and "unat (cursorPosition s) \<le> length tbl" and "\<not> hidden (tbl ! 0)"
    and "isEditModeEnabled s \<or> \<not> visibleIn tbl 1 (unat (cursorPosition s))"
  shows "up s = Some (False, s)"
proof -
  have "isEditModeEnabled s \<or>
         (\<forall>i. 1 \<le> i \<and> i < unat (cursorPosition s) \<longrightarrow> hidden (tbl ! i))"
    using assms(5) by (auto simp: visibleIn_iff)
  then show ?thesis by (rule up_fail[OF assms(1,2,3,4)])
qed

lemma up_go:
  assumes "table s = Some tbl" and "cursorPosition s \<noteq> 0"
    and "unat (cursorPosition s) \<le> length tbl" and "\<not> hidden (tbl ! 0)"
    and "\<not> isEditModeEnabled s" and "visibleIn tbl 1 (unat (cursorPosition s))"
  shows "\<exists>j b. 1 \<le> j \<and> j < unat (cursorPosition s) \<and>
             (\<forall>i. j < i \<and> i < unat (cursorPosition s) \<longrightarrow> hidden (tbl ! i)) \<and>
             \<not> hidden (tbl ! j) \<and> wasAtTop s = Some b \<and>
             up s =
               Some (True, s\<lparr>cursorPosition := of_nat j,
                   top_pos := (if of_nat j < top_pos s \<and> b then of_nat j else top_pos s),
                   bottom := (if of_nat j < top_pos s \<and> b
                              then of_nat j + maxRows s - 1 else bottom s),
                   events := events s @ (if enableUpdate s then [Redraw] else [])\<rparr>)"
proof -
  have "\<exists>i. 1 \<le> i \<and> i < unat (cursorPosition s) \<and> \<not> hidden (tbl ! i)"
    using assms(6) by (auto simp: visibleIn_iff)
  then obtain j where j: "1 \<le> j" "j < unat (cursorPosition s)" "\<not> hidden (tbl ! j)"
      "\<forall>i. j < i \<and> i < unat (cursorPosition s) \<longrightarrow> hidden (tbl ! i)"
    using last_visible_before[of 1 "unat (cursorPosition s)" tbl] by blast
  obtain b where b: "wasAtTop s = Some b"
    using wasAtTop_eq[OF assms(1,2,3)] by blast
  note m = up_move[OF assms(1,3,4,5) j(1,2,4,3) b]
  show ?thesis
    by (rule exI[of _ j], rule exI[of _ b]) (intro conjI j b m)
qed

lemma unat_of_nat_u8: "j < 256 \<Longrightarrow> unat (of_nat j :: u8) = j"
  by (simp add: unat_of_nat)

lemma onEntryD:
  assumes "onEntry s" and "table s = Some tbl"
  shows "wf_table tbl" and "currentMenuSize s = length tbl"
    and "1 \<le> unat (cursorPosition s)" and "unat (cursorPosition s) < length tbl - 1"
  using assms by (simp_all add: onEntry_def)

lemma wf_thirdHidden: "wf_table thirdHidden"
  by (simp add: wf_table_def thirdHidden_def mkItem_def isHeader_def isStructural_def
      eval_nat_numeral)

lemma vis_examples:
  "visibleIn thirdHidden 3 6" "visibleIn thirdHidden 1 2" "\<not> visibleIn thirdHidden 1 1"
  by (simp_all add: visibleIn_def thirdHidden_def mkItem_def eval_nat_numeral)

lemma length_thirdHidden: "length thirdHidden = 7"
  by (simp add: thirdHidden_def)

lemma hiddenBetween_all:
  assumes "\<forall>i. j < i \<and> i < c \<longrightarrow> hidden (tbl ! i)" and "j < c"
  shows "hiddenBetween tbl j c + 1 = c - j"
proof -
  have "filter (\<lambda>i. hidden (tbl ! i)) [Suc j..<c] = [Suc j..<c]"
    using assms(1) by (auto simp: filter_id_conv Suc_le_eq)
  then show ?thesis using assms(2) by (simp add: hiddenBetween_def)
qed

lemma down_true_form:
  assumes "onEntry s" and "table s = Some tbl" and "down s = Some (True, s')"
  shows "\<exists>j b. unat (cursorPosition s) < j \<and> j < length tbl - 1 \<and>
             (\<forall>i. unat (cursorPosition s) < i \<and> i < j \<longrightarrow> hidden (tbl ! i)) \<and>
             \<not> hidden (tbl ! j) \<and> wasAtBottom s = Some b \<and> \<not> isEditModeEnabled s \<and>
             s' = s\<lparr>cursorPosition := of_nat j,
                   top_pos := (if bottom s < of_nat j \<and> b then cursorPosition s else top_pos s),
                   bottom := (if bottom s < of_nat j \<and> b
                              then cursorPosition s + maxRows s - 1 else bottom s),
                   events := events s @ (if enableUpdate s then [Redraw] else [])\<rparr>"
proof -
  note e = onEntryD[OF assms(1,2)]
  note w = wf_tableD[OF e(1)]
  have l2: "2 \<le> length tbl" using w(1) by linarith
  have go: "\<not> isEditModeEnabled s \<and> visibleIn tbl (unat (cursorPosition s) + 1) (length tbl - 1)"
  proof (rule ccontr)
    assume "\<not> ?thesis"
    then have "down s = Some (False, s)"
      using down_stay[OF assms(2) e(2) l2] by blast
    then show False using assms(3) by simp
  qed
  obtain j b where j: "unat (cursorPosition s) < j" "j < length tbl - 1"
      "\<forall>i. unat (cursorPosition s) < i \<and> i < j \<longrightarrow> hidden (tbl ! i)"
      "\<not> hidden (tbl ! j)" "wasAtBottom s = Some b"
      "down s =
               Some (True, s\<lparr>cursorPosition := of_nat j,
                   top_pos := (if bottom s < of_nat j \<and> b then cursorPosition s else top_pos s),
                   bottom := (if bottom s < of_nat j \<and> b
                              then cursorPosition s + maxRows s - 1 else bottom s),
                   events := events s @ (if enableUpdate s then [Redraw] else [])\<rparr>)"
    using down_go[OF assms(2) e(2) l2 w(2)] go by blast
  have "s' = s\<lparr>cursorPosition := of_nat j,
                   top_pos := (if bottom s < of_nat j \<and> b then cursorPosition s else top_pos s),
                   bottom := (if bottom s < of_nat j \<and> b
                              then cursorPosition s + maxRows s - 1 else bottom s),
                   events := events s @ (if enableUpdate s then [Redraw] else [])\<rparr>"
    using j(6) assms(3) by simp
  then show ?thesis using j(1-5) go by blast
qed

lemma up_true_form:
  assumes "onEntry s" and "table s = Some tbl" and "up s = Some (True, s')"
  shows "\<exists>j b. 1 \<le> j \<and> j < unat (cursorPosition s) \<and>
             (\<forall>i. j < i \<and> i < unat (cursorPosition s) \<longrightarrow> hidden (tbl ! i)) \<and>
             \<not> hidden (tbl ! j) \<and> wasAtTop s = Some b \<and> \<not> isEditModeEnabled s \<and>
             s' = s\<lparr>cursorPosition := of_nat j,
                   top_pos := (if of_nat j < top_pos s \<and> b then of_nat j else top_pos s),
                   bottom := (if of_nat j < top_pos s \<and> b
                              then of_nat j + maxRows s - 1 else bottom s),
                   events := events s @ (if enableUpdate s then [Redraw] else [])\<rparr>"
proof -
  note e = onEntryD[OF assms(1,2)]
  note w = wf_tableD[OF e(1)]
  have cne: "cursorPosition s \<noteq> 0" using e(3) by (auto simp: unat_0_iff)
  have cle: "unat (cursorPosition s) \<le> length tbl" using e(4) by linarith
  have go: "\<not> isEditModeEnabled s \<and> visibleIn tbl 1 (unat (cursorPosition s))"
  proof (rule ccontr)
    assume "\<not> ?thesis"
    then have "up s = Some (False, s)"
      using up_stay[OF assms(2) cne cle w(4)] by blast
    then show False using assms(3) by simp
  qed
  obtain j b where j: "1 \<le> j" "j < unat (cursorPosition s)"
      "\<forall>i. j < i \<and> i < unat (cursorPosition s) \<longrightarrow> hidden (tbl ! i)"
      "\<not> hidden (tbl ! j)" "wasAtTop s = Some b"
      "up s =
               Some (True, s\<lparr>cursorPosition := of_nat j,
                   top_pos := (if of_nat j < top_pos s \<and> b then of_nat j else top_pos s),
                   bottom := (if of_nat j < top_pos s \<and> b
                              then of_nat j + maxRows s - 1 else bottom s),
                   events := events s @ (if enableUpdate s then [Redraw] else [])\<rparr>)"
    using up_go[OF assms(2) cne cle w(4)] go by blast
  have "s' = s\<lparr>cursorPosition := of_nat j,
                   top_pos := (if of_nat j < top_pos s \<and> b then of_nat j else top_pos s),
                   bottom := (if of_nat j < top_pos s \<and> b
                              then of_nat j + maxRows s - 1 else bottom s),
                   events := events s @ (if enableUpdate s then [Redraw] else [])\<rparr>"
    using j(6) assms(3) by simp
  then show ?thesis using j(1-5) go by blast
qed

lemma onLastRow_rows: "onLastRow s \<Longrightarrow> maxRows s \<noteq> 0"
proof
  assume a: "onLastRow s" and z: "maxRows s = 0"
  have "uint (cursorLine s) = - 1" using a z by (simp add: onLastRow_def)
  then show False using uint_ge_0[of "cursorLine s"] by linarith
qed

lemma isAtTheStart_loop_unfold:
  "isAtTheStart_loop tbl i =
     (if i < length tbl
      then (if \<not> hidden (tbl ! i) then Some (i = 0)
            else (if i = 0 then None else isAtTheStart_loop tbl (i - 1)))
      else None)"
  by (cases i) auto

lemma checkAllAboveHidden_loop_unfold:
  "checkAllAboveHidden_loop tbl i =
     (if i = 0 then Some True
      else if i < length tbl
           then (if \<not> hidden (tbl ! i) then Some False else checkAllAboveHidden_loop tbl (i - 1))
           else None)"
  by (cases i) auto

lemmas up_eval = isAtTheStart_loop_unfold checkAllAboveHidden_loop_unfold table_def tableAt_def itemAt_def update_def notify_def up_def up_loop.simps
  wasAtTop_def checkAllAboveHidden_def isAtTheStart_def cursorLine_def constrain_def

lemma up_example:
  "up ((startState 2 [thirdHidden])\<lparr>cursorPosition := 4, top_pos := 4, bottom := 5\<rparr>) =
     Some (True, (startState 2 [thirdHidden])\<lparr>cursorPosition := 2, top_pos := 2, bottom := 3,
                    events := [Redraw]\<rparr>)"
  by (simp add: up_eval startState_def thirdHidden_def mkItem_def)

lemma down_example:
  "down ((startState 2 [thirdHidden])\<lparr>cursorPosition := 2\<rparr>) =
     Some (True, (startState 2 [thirdHidden])\<lparr>cursorPosition := 4, top_pos := 2, bottom := 3,
                    events := [Redraw]\<rparr>)"
  by (simp add: down_eval tableAt_def startState_def thirdHidden_def mkItem_def)

section \<open>Preserving the navigation invariant\<close>

lemma map_shape_eqD:
  assumes "map shape tbl' = map shape tbl"
  shows "length tbl' = length tbl"
    and "\<And>i. i < length tbl \<Longrightarrow> itemType (tbl' ! i) = itemType (tbl ! i)"
    and "\<And>i. i < length tbl \<Longrightarrow> hidden (tbl' ! i) = hidden (tbl ! i)"
    and "\<And>i. i < length tbl \<Longrightarrow> subMenu (tbl' ! i) = subMenu (tbl ! i)"
proof -
  have "length (map shape tbl') = length (map shape tbl)" using assms by simp
  then show len: "length tbl' = length tbl" by simp
  have sh: "\<And>i. i < length tbl \<Longrightarrow> shape (tbl' ! i) = shape (tbl ! i)"
  proof -
    fix i assume i: "i < length tbl"
    have "map shape tbl' ! i = map shape tbl ! i" using assms by simp
    then show "shape (tbl' ! i) = shape (tbl ! i)" using i len by simp
  qed
  show "\<And>i. i < length tbl \<Longrightarrow> itemType (tbl' ! i) = itemType (tbl ! i)"
    using sh by (simp add: shape_def)
  show "\<And>i. i < length tbl \<Longrightarrow> hidden (tbl' ! i) = hidden (tbl ! i)"
    using sh by (simp add: shape_def)
  show "\<And>i. i < length tbl \<Longrightarrow> subMenu (tbl' ! i) = subMenu (tbl ! i)"
    using sh by (simp add: shape_def)
qed

lemma sameShapeD:
  assumes "sameShape h h'"
  shows "length h' = length h"
    and "\<And>a. a < length h \<Longrightarrow> map shape (h' ! a) = map shape (h ! a)"
proof -
  have e: "map (map shape) h' = map (map shape) h" using assms by (simp add: sameShape_def)
  then have "length (map (map shape) h') = length (map (map shape) h)" by simp
  then show len: "length h' = length h" by simp
  fix a assume a: "a < length h"
  have "map (map shape) h' ! a = map (map shape) h ! a" using e by simp
  then show "map shape (h' ! a) = map shape (h ! a)" using a len by simp
qed

lemma sameShape_refl [simp]: "sameShape h h"
  by (simp add: sameShape_def)

lemma wf_table_shape:
  assumes "map shape tbl' = map shape tbl" and "wf_table tbl"
  shows "wf_table tbl'"
proof -
  note m = map_shape_eqD[OF assms(1)]
  note w = wf_tableD[OF assms(2)]
  have l0: "0 < length tbl" "length tbl - 1 < length tbl" using w(1) by linarith+
  have "\<And>i. 1 \<le> i \<Longrightarrow> i < length tbl - 1 \<Longrightarrow> \<not> isStructural (tbl' ! i)"
  proof -
    fix i assume i: "1 \<le> i" "i < length tbl - 1"
    then have "i < length tbl" by simp
    then show "\<not> isStructural (tbl' ! i)"
      using w(6)[OF i] m(2)[of i] by (simp add: isStructural_def isHeader_def)
  qed
  then show ?thesis
    using w(1-5) m(1) m(2)[OF l0(1)] m(3)[OF l0(1)] m(2)[OF l0(2)]
    by (simp add: wf_table_def list_all_iff isHeader_def)
qed

lemma heapOKD:
  assumes "heapOK h" and "a < length h"
  shows "wf_table (h ! a)" and "\<not> hidden (h ! a ! 1)"
    and "\<And>i. i < length (h ! a) \<Longrightarrow> itemType (h ! a ! i) = MENU_ITEM_SUB_MENU \<Longrightarrow>
           linkOK h a (h ! a ! i)"
  using assms by (auto simp: heapOK_def list_all_iff linksOK_def)

lemma heapOKI:
  assumes "\<And>a. a < length h \<Longrightarrow> wf_table (h ! a)"
    and "\<And>a. a < length h \<Longrightarrow> \<not> hidden (h ! a ! 1)"
    and "\<And>a i. a < length h \<Longrightarrow> i < length (h ! a) \<Longrightarrow>
           itemType (h ! a ! i) = MENU_ITEM_SUB_MENU \<Longrightarrow> linkOK h a (h ! a ! i)"
  shows "heapOK h"
  using assms by (auto simp: heapOK_def list_all_iff linksOK_def in_set_conv_nth)

lemma heapOK_shape:
  assumes "heapOK h" and "sameShape h h'"
  shows "heapOK h'"
proof (rule heapOKI)
  note s = sameShapeD[OF assms(2)]
  fix a assume "a < length h'"
  then have a: "a < length h" using s(1) by simp
  note m = map_shape_eqD[OF s(2)[OF a]]
  note k = heapOKD[OF assms(1) a]
  note w = wf_tableD[OF k(1)]
  show "wf_table (h' ! a)" by (rule wf_table_shape[OF s(2)[OF a] k(1)])
  have "1 < length (h ! a)" using w(1) by linarith
  then show "\<not> hidden (h' ! a ! 1)" using m(3)[of 1] k(2) by simp
  fix i assume i: "i < length (h' ! a)" and t: "itemType (h' ! a ! i) = MENU_ITEM_SUB_MENU"
  have i': "i < length (h ! a)" using i m(1) by simp
  have l: "linkOK h a (h ! a ! i)" using k(3)[OF i'] t m(2)[OF i'] by simp
  show "linkOK h' a (h' ! a ! i)"
  proof (cases "subMenu (h ! a ! i)")
    case None
    then show ?thesis using m(4)[OF i'] by (simp add: linkOK_def)
  next
    case (Some c)
    then have c: "c < length h" "itemType (h ! c ! 0) = MENU_ITEM_SUB_MENU_HEADER"
      "subMenu (h ! c ! 0) = Some a"
      using l by (simp_all add: linkOK_def)
    note mc = map_shape_eqD[OF s(2)[OF c(1)]]
    have "0 < length (h ! c)" using wf_tableD(1)[OF heapOKD(1)[OF assms(1) c(1)]] by linarith
    then show ?thesis
      using Some c m(4)[OF i'] mc(2)[of 0] mc(4)[of 0] s(1) by (simp add: linkOK_def)
  qed
qed

lemma getMenuSize_wf:
  assumes "wf_table tbl"
  shows "getMenuSize tbl = Some (length tbl)"
proof -
  note w = wf_tableD[OF assms]
  have l0: "0 < length tbl" using w(1) by linarith
  have "\<forall>i. 0 \<le> i \<and> i < length tbl - 1 \<longrightarrow> itemType (tbl ! i) \<noteq> MENU_ITEM_END_OF_MENU"
  proof (intro allI impI)
    fix i assume i: "0 \<le> i \<and> i < length tbl - 1"
    show "itemType (tbl ! i) \<noteq> MENU_ITEM_END_OF_MENU"
    proof (cases "i = 0")
      case True
      then show ?thesis using w(3) by (auto simp: isHeader_def)
    next
      case False
      then have "1 \<le> i" by simp
      then show ?thesis using w(6)[of i] i by (auto simp: isStructural_def)
    qed
  qed
  then show ?thesis
    unfolding getMenuSize_def by (rule getMenuSize_loop_eq[OF l0 w(5)])
qed

lemma chain_mono:
  assumes "chainOK w rows h a" and "a < length h" and "sameShape h h'"
    and "\<And>p. p < length h \<Longrightarrow> 0 < length (h ! p)"
    and "\<And>p. p < length h \<Longrightarrow> mementoOK w rows (h ! p) \<Longrightarrow> mementoOK w rows (h' ! p)"
  shows "chainOK w rows h' a"
  using assms(1,2)
proof (induction rule: chainOK.induct)
  case (top_level a)
  note m = map_shape_eqD[OF sameShapeD(2)[OF assms(3) top_level(2)]]
  have "itemType (h' ! a ! 0) \<noteq> MENU_ITEM_SUB_MENU_HEADER"
    using top_level(1) m(2)[OF assms(4)[OF top_level(2)]] by simp
  then show ?case by (rule chainOK.top_level)
next
  case (no_parent a)
  note m = map_shape_eqD[OF sameShapeD(2)[OF assms(3) no_parent(2)]]
  have "subMenu (h' ! a ! 0) = None"
    using no_parent(1) m(4)[OF assms(4)[OF no_parent(2)]] by simp
  then show ?case by (rule chainOK.no_parent)
next
  case (sub_level a p)
  note m = map_shape_eqD[OF sameShapeD(2)[OF assms(3) sub_level(7)]]
  note z = assms(4)[OF sub_level(7)]
  have t: "itemType (h' ! a ! 0) = MENU_ITEM_SUB_MENU_HEADER"
    using sub_level(1) m(2)[OF z] by simp
  have l: "subMenu (h' ! a ! 0) = Some p" using sub_level(2) m(4)[OF z] by simp
  have p: "p < length h'" using sub_level(3) sameShapeD(1)[OF assms(3)] by simp
  have mo: "mementoOK w rows (h' ! p)" by (rule assms(5)[OF sub_level(3,4)])
  have c: "chainOK w rows h' p" by (rule sub_level(6)[OF sub_level(3)])
  show ?case by (rule chainOK.sub_level[OF t l p mo c])
qed

lemma putItem_shape:
  assumes "a < length h" and "i < length (h ! a)" and "shape it' = shape (h ! a ! i)"
  shows "sameShape h (h[a := (h ! a)[i := it']])"
proof -
  have "map shape ((h ! a)[i := it']) = (map shape (h ! a))[i := shape it']"
    by (rule map_update)
  also have "\<dots> = (map shape (h ! a))[i := map shape (h ! a) ! i]"
    using assms(2,3) by simp
  also have "\<dots> = map shape (h ! a)" by (rule list_update_id)
  finally have e: "map shape ((h ! a)[i := it']) = map shape (h ! a)" .
  have "map (map shape) (h[a := (h ! a)[i := it']]) =
          (map (map shape) h)[a := map shape ((h ! a)[i := it'])]"
    by (rule map_update)
  also have "\<dots> = (map (map shape) h)[a := map (map shape) h ! a]"
    using e assms(1) by simp
  also have "\<dots> = map (map shape) h" by (rule list_update_id)
  finally show ?thesis by (simp add: sameShape_def)
qed

lemma mementoOK_entry_update:
  assumes "1 \<le> i" and "hidden it' = hidden (tbl ! i)"
  shows "mementoOK w rows (tbl[i := it']) = mementoOK w rows tbl"
proof -
  have z: "(tbl[i := it']) ! 0 = tbl ! 0" using assms(1) by simp
  have h: "\<And>k. hidden ((tbl[i := it']) ! k) = hidden (tbl ! k)"
  proof -
    fix k show "hidden ((tbl[i := it']) ! k) = hidden (tbl ! k)"
    proof (cases "k = i \<and> i < length tbl")
      case True
      then show ?thesis using assms(2) by simp
    next
      case False
      then show ?thesis by (cases "k = i") (simp_all add: list_update_beyond)
    qed
  qed
  show ?thesis by (simp add: mementoOK_def z h)
qed

lemma plainD:
  assumes "plain rows h"
  shows "2 \<le> unat rows"
    and "\<And>a. a < length h \<Longrightarrow> length (h ! a) + unat rows \<le> 258"
    and "\<And>a i. a < length h \<Longrightarrow> i < length (h ! a) \<Longrightarrow> \<not> hidden (h ! a ! i)"
  using assms by (simp_all add: plain_def list_all_length)

lemma plainI:
  assumes "2 \<le> unat rows"
    and "\<And>a. a < length h \<Longrightarrow> length (h ! a) + unat rows \<le> 258"
    and "\<And>a i. a < length h \<Longrightarrow> i < length (h ! a) \<Longrightarrow> \<not> hidden (h ! a ! i)"
  shows "plain rows h"
  using assms by (simp add: plain_def list_all_length)

lemma plain_shape:
  assumes "plain rows h" and "sameShape h h'"
  shows "plain rows h'"
proof (rule plainI)
  note p = plainD[OF assms(1)]
  note s = sameShapeD[OF assms(2)]
  show "2 \<le> unat rows" by (rule p(1))
  fix a assume "a < length h'"
  then have a: "a < length h" using s(1) by simp
  note m = map_shape_eqD[OF s(2)[OF a]]
  show "length (h' ! a) + unat rows \<le> 258" using p(2)[OF a] m(1) by simp
  fix i assume "i < length (h' ! a)"
  then have i: "i < length (h ! a)" using m(1) by simp
  show "\<not> hidden (h' ! a ! i)" using p(3)[OF a i] m(3)[OF i] by simp
qed

lemma within_start: "rows \<noteq> 0 \<Longrightarrow> within rows 1 1"
proof -
  assume "rows \<noteq> 0"
  then have "1 \<le> unat rows" by (simp add: unat_0_iff Suc_le_eq unat_gt_0)
  moreover have "unat rows < 256" using unat_u8_bound[of rows] by simp
  ultimately show ?thesis by (simp add: within_def)
qed

lemma unat_bottom:
  assumes "rows \<noteq> 0" and "unat t + unat rows - 1 \<le> 255"
  shows "unat (t + rows - 1 :: u8) = unat t + unat rows - 1"
proof -
  have r: "1 \<le> unat rows" using assms(1) by (simp add: Suc_le_eq unat_gt_0)
  have "unat (rows - 1) = unat rows - 1" using assms(1) by (rule unat_u8_pred)
  moreover have "unat t + unat (rows - 1) < 2 ^ LENGTH(8)" using calculation assms(2) r by simp
  ultimately have u: "unat (t + (rows - 1)) = unat t + unat rows - 1"
    using r by (simp add: unat_add_lem[THEN iffD1])
  have e: "t + rows - 1 = t + (rows - 1)" by simp
  show ?thesis unfolding e by (rule u)
qed

lemma cursorLine_last:
  assumes "unat (cursorPosition s) = unat (top_pos s) + unat (maxRows s) - 1"
    and "maxRows s \<noteq> 0"
  shows "uint (cursorLine s) = uint (maxRows s) - 1"
proof -
  have r: "1 \<le> unat (maxRows s)" using assms(2) by (simp add: Suc_le_eq unat_gt_0)
  have "int (unat (cursorPosition s)) = int (unat (top_pos s)) + int (unat (maxRows s)) - 1"
    using assms(1) r by linarith
  then have d: "uint (cursorPosition s) - uint (top_pos s) = uint (maxRows s) - 1"
    unfolding uint_nat by linarith
  have "1 \<le> uint (maxRows s)" using r unfolding uint_nat by linarith
  then have c: "constrain (uint (maxRows s) - 1) 0 (uint (maxRows s) - 1) = uint (maxRows s) - 1"
    by (simp add: constrain_def)
  have "cursorLine s = maxRows s - 1" by (simp add: cursorLine_def d c)
  moreover have "uint (maxRows s - 1) = uint (maxRows s) - 1"
    using \<open>1 \<le> uint (maxRows s)\<close> by (simp add: uint_sub_lem[THEN iffD1])
  ultimately show ?thesis by simp
qed


lemma within_down:
  assumes pl: "plain (maxRows s) (heap s)"
    and wi: "within (maxRows s) (top_pos s) (cursorPosition s)"
    and t: "table s = Some tbl" and sz: "currentMenuSize s = length tbl"
    and bt: "bottom s = top_pos s + maxRows s - 1"
    and j: "unat (cursorPosition s) < j" "j < length tbl - 1"
      "\<forall>i. unat (cursorPosition s) < i \<and> i < j \<longrightarrow> hidden (tbl ! i)"
    and b: "wasAtBottom s = Some b"
  shows "within (maxRows s)
           (if bottom s < of_nat j \<and> b then cursorPosition s else top_pos s) (of_nat j)"
proof -
  let ?c = "unat (cursorPosition s)"
  let ?r = "unat (maxRows s)"
  note td = table_SomeD[OF t]
  note p = plainD[OF pl]
  have len: "length tbl + ?r \<le> 258" using p(2)[OF td(1)] td(2) by simp
  have vis: "\<And>i. i < length tbl \<Longrightarrow> \<not> hidden (tbl ! i)" using p(3)[OF td(1)] td(2) by simp
  have rz: "maxRows s \<noteq> 0" using p(1) by auto
  have jc: "j = ?c + 1"
  proof (rule ccontr)
    assume "j \<noteq> ?c + 1"
    then have "?c < ?c + 1 \<and> ?c + 1 < j" using j(1) by linarith
    then have "hidden (tbl ! (?c + 1))" using j(3) by blast
    moreover have "?c + 1 < length tbl" using j(1,2) by linarith
    ultimately show False using vis by blast
  qed
  have "j < 256" using j(2) len p(1) by linarith
  then have un: "unat (of_nat j :: u8) = j" by (rule unat_of_nat_u8)
  have w1: "?c \<le> unat (top_pos s) + ?r - 1" and w2: "unat (top_pos s) + ?r - 1 \<le> 255"
    using wi by (simp_all add: within_def)
  have ub: "unat (bottom s) = unat (top_pos s) + ?r - 1"
    unfolding bt by (rule unat_bottom[OF rz w2])
  have l2: "2 \<le> length tbl" using j(1,2) by linarith
  show ?thesis
  proof (cases "bottom s < of_nat j \<and> b")
    case True
    have "j \<le> ?c + ?r - 1" using jc p(1) by linarith
    moreover have "?c + ?r - 1 \<le> 255" using j(1,2) len by linarith
    ultimately show ?thesis using True un by (simp add: within_def)
  next
    case False
    have "j \<le> unat (top_pos s) + ?r - 1"
    proof (rule ccontr)
      assume a: "\<not> j \<le> unat (top_pos s) + ?r - 1"
      then have ce: "?c = unat (top_pos s) + ?r - 1" using jc w1 by linarith
      have "bottom s < of_nat j" using a ub un by (simp add: word_less_nat_alt)
      then have nb: "\<not> b" using False by blast
      have "uint (cursorLine s) = uint (maxRows s) - 1" by (rule cursorLine_last[OF ce rz])
      then have "wasAtBottom s = Some True"
        using wasAtBottom_eq[OF t sz l2] rz by simp
      then show False using b nb by simp
    qed
    moreover have "(if bottom s < of_nat j \<and> b then cursorPosition s else top_pos s) = top_pos s"
      using False by auto
    ultimately show ?thesis using un w2 by (simp add: within_def)
  qed
qed

lemma within_up:
  assumes "within rows t c" and "j < unat c" and "rows \<noteq> 0"
  shows "within rows (if of_nat j < t \<and> b then of_nat j else t) (of_nat j)"
proof -
  have r: "1 \<le> unat rows" using assms(3) by (simp add: Suc_le_eq unat_gt_0)
  have w1: "unat c \<le> unat t + unat rows - 1" and w2: "unat t + unat rows - 1 \<le> 255"
    using assms(1) by (simp_all add: within_def)
  have "j < 256" using assms(2) unat_u8_bound[of c] by linarith
  then have un: "unat (of_nat j :: u8) = j" by (rule unat_of_nat_u8)
  show ?thesis
  proof (cases "of_nat j < t \<and> b")
    case True
    then have "j < unat t" using un by (simp add: word_less_nat_alt)
    then have "j + unat rows - 1 \<le> 255" using w2 by linarith
    moreover have "j \<le> j + unat rows - 1" using r by linarith
    ultimately show ?thesis using True un by (simp add: within_def)
  next
    case False
    have "j \<le> unat t + unat rows - 1" using assms(2) w1 by linarith
    moreover have "(if of_nat j < t \<and> b then of_nat j else t) = t" using False by auto
    ultimately show ?thesis using un w2 by (simp add: within_def)
  qed
qed

lemma within_le:
  assumes "within rows t c" and "rows \<noteq> 0"
  shows "c \<le> t + rows - 1"
proof -
  have w1: "unat c \<le> unat t + unat rows - 1" and w2: "unat t + unat rows - 1 \<le> 255"
    using assms(1) by (simp_all add: within_def)
  show ?thesis using w1 unat_bottom[OF assms(2) w2] by (simp add: word_le_nat_alt)
qed

lemma navInvD:
  assumes "navInv w s"
  shows "heapOK (heap s)" and "maxRows s \<noteq> 0" and "onEntry s"
    and "\<exists>tbl. table s = Some tbl"
    and "bottom s = top_pos s + maxRows s - 1"
    and "chainOK w (maxRows s) (heap s) (currentMenuTable s)"
    and "w \<Longrightarrow> plain (maxRows s) (heap s)"
    and "w \<Longrightarrow> within (maxRows s) (top_pos s) (cursorPosition s)"
  using assms by (auto simp: navInv_def split: option.splits)

lemma navInvD_table:
  assumes "navInv w s" and "table s = Some tbl"
  shows "\<not> hidden (tbl ! unat (cursorPosition s))" and "1 \<le> unat (top_pos s)"
    and "unat (top_pos s) \<le> unat (cursorPosition s)" and "\<not> hidden (tbl ! unat (top_pos s))"
  using assms by (auto simp: navInv_def)

lemma navInvI:
  assumes "heapOK (heap s)" and "maxRows s \<noteq> 0" and "onEntry s" and "table s = Some tbl"
    and "\<not> hidden (tbl ! unat (cursorPosition s))" and "1 \<le> unat (top_pos s)"
    and "unat (top_pos s) \<le> unat (cursorPosition s)" and "\<not> hidden (tbl ! unat (top_pos s))"
    and "bottom s = top_pos s + maxRows s - 1"
    and "chainOK w (maxRows s) (heap s) (currentMenuTable s)"
    and "w \<Longrightarrow> plain (maxRows s) (heap s)"
    and "w \<Longrightarrow> within (maxRows s) (top_pos s) (cursorPosition s)"
  shows "navInv w s"
  using assms by (simp add: navInv_def)

lemma navInv_frame:
  assumes "heap s' = heap s" and "maxRows s' = maxRows s"
    and "cursorPosition s' = cursorPosition s" and "top_pos s' = top_pos s"
    and "bottom s' = bottom s" and "currentMenuTable s' = currentMenuTable s"
    and "currentMenuSize s' = currentMenuSize s"
  shows "navInv w s' = navInv w s"
  using assms by (simp add: navInv_def onEntry_def table_def split: option.splits)

lemma navInv_update [simp]: "navInv w (update s) = navInv w s"
  by (rule navInv_frame) (simp_all add: update_def notify_def)

lemma navInv_notify [simp]: "navInv w (notify evs s) = navInv w s"
  by (rule navInv_frame) (simp_all add: notify_def)

lemma navInv_drawCursor [simp]: "navInv w (drawCursor s) = navInv w s"
  by (simp add: drawCursor_def)

lemma navInv_edit_flag [simp]: "navInv w (s\<lparr>isEditModeEnabled := b\<rparr>) = navInv w s"
  by (rule navInv_frame) simp_all

lemma cursorLine_at_top:
  assumes "cursorPosition s = top_pos s" and "maxRows s \<noteq> 0"
  shows "cursorLine s = 0"
proof -
  have "uint (maxRows s) \<noteq> 0" using assms(2) by (simp add: uint_0_iff)
  then have "1 \<le> uint (maxRows s)" using uint_ge_0[of "maxRows s"] by linarith
  then have "constrain 0 0 (uint (maxRows s) - 1) = 0" by (simp add: constrain_def)
  then show ?thesis using assms(1) by (simp add: cursorLine_def)
qed

lemma down_inv:
  assumes "navInv w s"
  shows "\<exists>r s'. down s = Some (r, s') \<and> navInv w s'"
proof -
  note n = navInvD[OF assms]
  obtain tbl where t: "table s = Some tbl" using n(4) by blast
  note k = navInvD_table[OF assms t]
  note e = onEntryD[OF n(3) t]
  note w = wf_tableD[OF e(1)]
  have l2: "2 \<le> length tbl" using w(1) by linarith
  let ?c = "unat (cursorPosition s)"
  show ?thesis
  proof (cases "isEditModeEnabled s \<or> \<not> visibleIn tbl (?c + 1) (length tbl - 1)")
    case True
    then have "down s = Some (False, s)" by (rule down_stay[OF t e(2) l2])
    then show ?thesis using assms by blast
  next
    case False
    then have g: "\<not> isEditModeEnabled s" "visibleIn tbl (?c + 1) (length tbl - 1)" by auto
    obtain j b where j: "?c < j" "j < length tbl - 1" "\<not> hidden (tbl ! j)"
        "\<forall>i. ?c < i \<and> i < j \<longrightarrow> hidden (tbl ! i)" "wasAtBottom s = Some b"
      and d: "down s =
               Some (True, s\<lparr>cursorPosition := of_nat j,
                   top_pos := (if bottom s < of_nat j \<and> b then cursorPosition s else top_pos s),
                   bottom := (if bottom s < of_nat j \<and> b
                              then cursorPosition s + maxRows s - 1 else bottom s),
                   events := events s @ (if enableUpdate s then [Redraw] else [])\<rparr>)"
      using down_go[OF t e(2) l2 w(2) g] by blast
    let ?s' = "s\<lparr>cursorPosition := of_nat j,
                   top_pos := (if bottom s < of_nat j \<and> b then cursorPosition s else top_pos s),
                   bottom := (if bottom s < of_nat j \<and> b
                              then cursorPosition s + maxRows s - 1 else bottom s),
                   events := events s @ (if enableUpdate s then [Redraw] else [])\<rparr>"
    have "j < 256" using j(2) w(2) by linarith
    then have un: "unat (of_nat j :: u8) = j" by (rule unat_of_nat_u8)
    have t': "table ?s' = Some tbl" using t by (simp add: table_def)
    have oe: "onEntry ?s'"
      using t e(1,2) j un by (simp add: onEntry_def table_def)
    have "navInv w ?s'"
    proof (rule navInvI[OF _ _ oe t'])
      show "heapOK (heap ?s')" using n(1) by simp
      show "maxRows ?s' \<noteq> 0" using n(2) by simp
      show "\<not> hidden (tbl ! unat (cursorPosition ?s'))" using j(3) un by simp
      show "1 \<le> unat (top_pos ?s')" using k(2) e(3) by simp
      show "unat (top_pos ?s') \<le> unat (cursorPosition ?s')" using k(3) j(1) un by simp
      show "\<not> hidden (tbl ! unat (top_pos ?s'))" using k(1,4) by simp
      show "bottom ?s' = top_pos ?s' + maxRows ?s' - 1" using n(5) by simp
      show "chainOK w (maxRows ?s') (heap ?s') (currentMenuTable ?s')" using n(6) by simp
      show "plain (maxRows ?s') (heap ?s')" if w using n(7)[OF that] by simp
      show "within (maxRows ?s') (top_pos ?s') (cursorPosition ?s')" if w
        using within_down[OF n(7)[OF that] n(8)[OF that] t e(2) n(5) j(1,2,4,5)] by simp
    qed
    then show ?thesis using d by blast
  qed
qed

lemma up_inv:
  assumes "navInv w s"
  shows "\<exists>r s'. up s = Some (r, s') \<and> navInv w s'"
proof -
  note n = navInvD[OF assms]
  obtain tbl where t: "table s = Some tbl" using n(4) by blast
  note k = navInvD_table[OF assms t]
  note e = onEntryD[OF n(3) t]
  note w = wf_tableD[OF e(1)]
  let ?c = "unat (cursorPosition s)"
  have cne: "cursorPosition s \<noteq> 0" using e(3) by (auto simp: unat_0_iff)
  have cle: "?c \<le> length tbl" using e(4) by linarith
  show ?thesis
  proof (cases "isEditModeEnabled s \<or> \<not> visibleIn tbl 1 ?c")
    case True
    then have "up s = Some (False, s)" by (rule up_stay[OF t cne cle w(4)])
    then show ?thesis using assms by blast
  next
    case False
    then have g: "\<not> isEditModeEnabled s" "visibleIn tbl 1 ?c" by auto
    obtain j b where j: "1 \<le> j" "j < ?c" "\<forall>i. j < i \<and> i < ?c \<longrightarrow> hidden (tbl ! i)"
        "\<not> hidden (tbl ! j)" "wasAtTop s = Some b"
      and d: "up s =
               Some (True, s\<lparr>cursorPosition := of_nat j,
                   top_pos := (if of_nat j < top_pos s \<and> b then of_nat j else top_pos s),
                   bottom := (if of_nat j < top_pos s \<and> b
                              then of_nat j + maxRows s - 1 else bottom s),
                   events := events s @ (if enableUpdate s then [Redraw] else [])\<rparr>)"
      using up_go[OF t cne cle w(4) g] by blast
    let ?s' = "s\<lparr>cursorPosition := of_nat j,
                   top_pos := (if of_nat j < top_pos s \<and> b then of_nat j else top_pos s),
                   bottom := (if of_nat j < top_pos s \<and> b
                              then of_nat j + maxRows s - 1 else bottom s),
                   events := events s @ (if enableUpdate s then [Redraw] else [])\<rparr>"
    have jl: "j < length tbl - 1" using j(2) e(4) by linarith
    then have "j < 256" using w(2) by linarith
    then have un: "unat (of_nat j :: u8) = j" by (rule unat_of_nat_u8)
    have lt: "((of_nat j :: u8) < top_pos s) = (j < unat (top_pos s))"
      using un by (simp add: word_less_nat_alt)
    have bt: "j < unat (top_pos s) \<Longrightarrow> b"
    proof -
      assume a: "j < unat (top_pos s)"
      have "\<not> (unat (top_pos s) < ?c)" using a j(3) k(4) by blast
      then have "unat (top_pos s) = ?c" using k(3) by linarith
      then have "cursorPosition s = top_pos s" by (simp add: word_unat_eq_iff)
      then have "cursorLine s = 0" using n(2) by (rule cursorLine_at_top)
      then show b using wasAtTop_eq[OF t cne cle] j(5) by simp
    qed
    have t': "table ?s' = Some tbl" using t by (simp add: table_def)
    have oe: "onEntry ?s'"
      using t e(1,2) j(1) jl un by (simp add: onEntry_def table_def)
    have "navInv w ?s'"
    proof (rule navInvI[OF _ _ oe t'])
      show "heapOK (heap ?s')" using n(1) by simp
      show "maxRows ?s' \<noteq> 0" using n(2) by simp
      show "\<not> hidden (tbl ! unat (cursorPosition ?s'))" using j(4) un by simp
      show "1 \<le> unat (top_pos ?s')" using k(2) j(1) un by simp
      show "unat (top_pos ?s') \<le> unat (cursorPosition ?s')" using bt lt un by auto
      show "\<not> hidden (tbl ! unat (top_pos ?s'))" using k(4) j(4) un by simp
      show "bottom ?s' = top_pos ?s' + maxRows ?s' - 1" using n(5) by simp
      show "chainOK w (maxRows ?s') (heap ?s') (currentMenuTable ?s')" using n(6) by simp
      show "plain (maxRows ?s') (heap ?s')" if w using n(7)[OF that] by simp
      show "within (maxRows ?s') (top_pos ?s') (cursorPosition ?s')" if w
        using within_up[OF n(8)[OF that] j(2) n(2), of b] by simp
    qed
    then show ?thesis using d by blast
  qed
qed

lemma navInv_cursorItem:
  assumes "navInv w s" and "table s = Some tbl"
  shows "cursorItem s = Some (tbl ! unat (cursorPosition s))"
proof -
  note e = onEntryD[OF navInvD(3)[OF assms(1)] assms(2)]
  have "unat (cursorPosition s) < length tbl" using e(4) by linarith
  then show ?thesis using assms(2) by (simp add: cursorItem_def itemAt_def)
qed

lemma navInv_put:
  assumes "navInv w s" and "cursorItem s = Some it" and "shape it' = shape it"
  shows "navInv w (putItem s (unat (cursorPosition s)) it')"
proof -
  note n = navInvD[OF assms(1)]
  note d = cursorItem_SomeD[OF assms(2)]
  let ?cur = "currentMenuTable s"
  let ?c = "unat (cursorPosition s)"
  let ?tbl = "heap s ! ?cur"
  let ?h' = "(heap s)[?cur := ?tbl[?c := it']]"
  let ?s' = "putItem s ?c it'"
  note k = navInvD_table[OF assms(1) d(4)]
  note e = onEntryD[OF n(3) d(4)]
  have sh: "shape it' = shape (?tbl ! ?c)" using assms(3) d(3) by simp
  have ss: "sameShape (heap s) ?h'" by (rule putItem_shape[OF d(1,2) sh])
  have hp: "heap ?s' = ?h'" by (simp add: putItem_def)
  have t': "table ?s' = Some (?tbl[?c := it'])"
    using d(1) by (simp add: table_def tableAt_def putItem_def)
  have ms: "map shape (?tbl[?c := it']) = map shape ?tbl"
    using sameShapeD(2)[OF ss d(1)] d(1) by simp
  note m = map_shape_eqD[OF ms]
  have hid: "hidden it' = hidden (?tbl ! ?c)" using sh by (simp add: shape_def)
  have oe: "onEntry ?s'"
    using t' wf_table_shape[OF ms e(1)] e(2,3,4)
    by (simp add: onEntry_def putItem_def)
  have tl: "unat (top_pos s) < length ?tbl" using k(3) d(2) by linarith
  have nz: "\<And>p. p < length (heap s) \<Longrightarrow> 0 < length (heap s ! p)"
  proof -
    fix p assume "p < length (heap s)"
    then have "3 \<le> length (heap s ! p)" using wf_tableD(1)[OF heapOKD(1)[OF n(1)]] by blast
    then show "0 < length (heap s ! p)" by linarith
  qed
  have mo: "\<And>p. p < length (heap s) \<Longrightarrow> mementoOK w (maxRows s) (heap s ! p) \<Longrightarrow>
                 mementoOK w (maxRows s) (?h' ! p)"
  proof -
    fix p assume p: "p < length (heap s)" and a: "mementoOK w (maxRows s) (heap s ! p)"
    show "mementoOK w (maxRows s) (?h' ! p)"
    proof (cases "p = ?cur")
      case True
      then show ?thesis
        using a p mementoOK_entry_update[OF e(3) hid] by simp
    next
      case False
      then show ?thesis using a by simp
    qed
  qed
  show ?thesis
  proof (rule navInvI[OF _ _ oe t'])
    show "heapOK (heap ?s')" unfolding hp by (rule heapOK_shape[OF n(1) ss])
    show "maxRows ?s' \<noteq> 0" using n(2) by (simp add: putItem_def)
    show "\<not> hidden (?tbl[?c := it'] ! unat (cursorPosition ?s'))"
      using m(3)[OF d(2)] k(1) by (simp add: putItem_def)
    show "1 \<le> unat (top_pos ?s')" using k(2) by (simp add: putItem_def)
    show "unat (top_pos ?s') \<le> unat (cursorPosition ?s')" using k(3) by (simp add: putItem_def)
    show "\<not> hidden (?tbl[?c := it'] ! unat (top_pos ?s'))"
      using m(3)[OF tl] k(4) by (simp add: putItem_def)
    show "bottom ?s' = top_pos ?s' + maxRows ?s' - 1" using n(5) by (simp add: putItem_def)
    have "chainOK w (maxRows s) ?h' ?cur"
      by (rule chain_mono[OF n(6) d(1) ss nz mo])
    then show "chainOK w (maxRows ?s') (heap ?s') (currentMenuTable ?s')"
      by (simp add: putItem_def)
    show "plain (maxRows ?s') (heap ?s')" if w
      using plain_shape[OF n(7)[OF that] ss] by (simp add: putItem_def)
    show "within (maxRows ?s') (top_pos ?s') (cursorPosition ?s')" if w
      using n(8)[OF that] by (simp add: putItem_def)
  qed
qed

lemma enterSubMenu_inv:
  assumes "navInv w s" and "cursorItem s = Some it" and "itemType it = MENU_ITEM_SUB_MENU"
  shows "\<exists>s'. enterSubMenu s it = Some s' \<and> navInv w s'"
proof (cases "subMenu it")
  case None
  then show ?thesis using assms(1) by (simp add: enterSubMenu_def)
next
  case (Some child)
  note n = navInvD[OF assms(1)]
  note d = cursorItem_SomeD[OF assms(2)]
  let ?cur = "currentMenuTable s"
  let ?c = "unat (cursorPosition s)"
  define tbl where "tbl = heap s ! ?cur"
  have t: "table s = Some tbl" using d(4) by (simp add: tbl_def)
  note k = navInvD_table[OF assms(1) t]
  note e = onEntryD[OF n(3) t]
  note w = wf_tableD[OF e(1)]
  have l0: "0 < length tbl" using w(1) by linarith
  have cl: "?c < length tbl" using e(4) by linarith
  define hdr' where "hdr' = (tbl ! 0)\<lparr>hdrTop := top_pos s, hdrBottom := bottom s,
                           hdrCursorPosition := cursorPosition s\<rparr>"
  define heap1 where "heap1 = (heap s)[?cur := tbl[0 := hdr']]"
  have sh: "shape hdr' = shape (heap s ! ?cur ! 0)" by (simp add: hdr'_def shape_def tbl_def)
  have l0': "0 < length (heap s ! ?cur)" using l0 by (simp add: tbl_def)
  have ss: "sameShape (heap s) heap1"
    unfolding heap1_def tbl_def by (rule putItem_shape[OF d(1) l0' sh])
  have ok1: "heapOK heap1" by (rule heapOK_shape[OF n(1) ss])
  have len1: "length heap1 = length (heap s)" by (simp add: heap1_def)
  have cur1: "heap1 ! ?cur = tbl[0 := hdr']" using d(1) by (simp add: heap1_def)
  have c1: "1 \<le> ?c" by (rule e(3))
  have it1: "heap1 ! ?cur ! ?c = it" using cur1 c1 d(3) by (simp add: tbl_def)
  have cl1: "?c < length (heap1 ! ?cur)" using cur1 cl by simp
  have cur_lt: "?cur < length heap1" using d(1) len1 by simp
  have "linkOK heap1 ?cur (heap1 ! ?cur ! ?c)"
    using heapOKD(3)[OF ok1 cur_lt cl1] it1 assms(3) by simp
  then have lk: "child < length heap1" "itemType (heap1 ! child ! 0) = MENU_ITEM_SUB_MENU_HEADER"
    "subMenu (heap1 ! child ! 0) = Some ?cur"
    using Some it1 by (simp_all add: linkOK_def)
  have wc: "wf_table (heap1 ! child)" by (rule heapOKD(1)[OF ok1 lk(1)])
  have sz: "getMenuSize (heap1 ! child) = Some (length (heap1 ! child))"
    by (rule getMenuSize_wf[OF wc])
  have ch: "child < length (heap s)" using lk(1) len1 by simp
  define s1 where
    "s1 = s\<lparr>heap := heap1, top_pos := 1, bottom := maxRows s, cursorPosition := 1,
             currentMenuTable := child, currentMenuSize := length (heap1 ! child)\<rparr>"
  have en: "enterSubMenu s it = Some (update s1)"
    unfolding s1_def
    by (rule enterSubMenu_eq[OF t Some ch w(3) l0 hdr'_def heap1_def sz])
  have mo_cur: "mementoOK w (maxRows s) (heap1 ! ?cur)"
  proof -
    have z: "(tbl[0 := hdr']) ! 0 = hdr'" using l0 by simp
    have hc: "\<not> hidden ((tbl[0 := hdr']) ! ?c)" using k(1) c1 by simp
    have ht: "\<not> hidden ((tbl[0 := hdr']) ! unat (top_pos s))" using k(4) k(2) by simp
    show ?thesis
      unfolding cur1 mementoOK_def z
      using k(2,3) e(4) hc ht n(5) n(8) by (simp add: hdr'_def)
  qed
  have nz: "\<And>p. p < length (heap s) \<Longrightarrow> 0 < length (heap s ! p)"
  proof -
    fix p assume "p < length (heap s)"
    then have "3 \<le> length (heap s ! p)" using wf_tableD(1)[OF heapOKD(1)[OF n(1)]] by blast
    then show "0 < length (heap s ! p)" by linarith
  qed
  have mo: "\<And>p. p < length (heap s) \<Longrightarrow> mementoOK w (maxRows s) (heap s ! p) \<Longrightarrow>
                 mementoOK w (maxRows s) (heap1 ! p)"
  proof -
    fix p assume p: "p < length (heap s)" and a: "mementoOK w (maxRows s) (heap s ! p)"
    show "mementoOK w (maxRows s) (heap1 ! p)"
    proof (cases "p = ?cur")
      case True
      then show ?thesis using mo_cur by simp
    next
      case False
      then show ?thesis using a by (simp add: heap1_def)
    qed
  qed
  have chain_cur: "chainOK w (maxRows s) heap1 ?cur"
    by (rule chain_mono[OF n(6) d(1) ss nz mo])
  have chain_child: "chainOK w (maxRows s) heap1 child"
    by (rule chainOK.sub_level[OF lk(2,3) cur_lt mo_cur chain_cur])
  have t1: "table s1 = Some (heap1 ! child)"
    using lk(1) by (simp add: s1_def table_def tableAt_def)
  note w1 = wf_tableD[OF wc]
  have oe: "onEntry s1"
    using t1 wc w1(1) by (simp add: onEntry_def s1_def)
  have "navInv w s1"
  proof (rule navInvI[OF _ _ oe t1])
    show "heapOK (heap s1)" using ok1 by (simp add: s1_def)
    show "maxRows s1 \<noteq> 0" using n(2) by (simp add: s1_def)
    show "\<not> hidden (heap1 ! child ! unat (cursorPosition s1))"
      using heapOKD(2)[OF ok1 lk(1)] by (simp add: s1_def)
    show "1 \<le> unat (top_pos s1)" by (simp add: s1_def)
    show "unat (top_pos s1) \<le> unat (cursorPosition s1)" by (simp add: s1_def)
    show "\<not> hidden (heap1 ! child ! unat (top_pos s1))"
      using heapOKD(2)[OF ok1 lk(1)] by (simp add: s1_def)
    show "bottom s1 = top_pos s1 + maxRows s1 - 1" by (simp add: s1_def)
    show "chainOK w (maxRows s1) (heap s1) (currentMenuTable s1)"
      using chain_child by (simp add: s1_def)
    show "plain (maxRows s1) (heap s1)" if w
      using plain_shape[OF n(7)[OF that] ss] by (simp add: s1_def)
    show "within (maxRows s1) (top_pos s1) (cursorPosition s1)" if w
      using within_start[OF n(2)] by (simp add: s1_def)
  qed
  then show ?thesis using en by simp
qed

lemma shape_simps [simp]:
  "shape (it\<lparr>isOn := b\<rparr>) = shape it"
  "shape (saveProgress it) = shape it"
  "shape (restoreProgress it) = shape it"
  by (simp_all add: shape_def saveProgress_def restoreProgress_def)

lemma enter_inv:
  assumes "navInv w s"
  shows "\<exists>s'. enter s = Some s' \<and> navInv w s'"
proof -
  note n = navInvD[OF assms]
  obtain tbl where t: "table s = Some tbl" using n(4) by blast
  define it where "it = tbl ! unat (cursorPosition s)"
  have ci: "cursorItem s = Some it"
    unfolding it_def by (rule navInv_cursorItem[OF assms t])
  note d = cursorItem_SomeD[OF ci]
  have ia: "itemAt tbl (unat (cursorPosition s)) = Some it"
    using ci t by (simp add: cursorItem_def)
  have cie: "cursorItem (s\<lparr>isEditModeEnabled := True\<rparr>) = Some it" using ci by simp
  have pe: "navInv w (putItem (s\<lparr>isEditModeEnabled := True\<rparr>) (unat (cursorPosition s))
                     (saveProgress it))"
    using navInv_put[of w "s\<lparr>isEditModeEnabled := True\<rparr>" it "saveProgress it"] cie assms
    by simp
  have pt: "navInv w (putItem s (unat (cursorPosition s)) (it\<lparr>isOn := \<not> isOn it\<rparr>))"
    using navInv_put[OF assms ci, of "it\<lparr>isOn := \<not> isOn it\<rparr>"] by simp
  show ?thesis
  proof (cases "itemType it = MENU_ITEM_SUB_MENU")
    case True
    then show ?thesis
      using enterSubMenu_inv[OF assms ci True] t ia by (simp add: enter_def)
  next
    case False
    then show ?thesis
      using t ia assms pe pt
      by (cases "itemType it") (simp_all add: enter_def enterEdit_def Let_def)
  qed
qed

lemma leaveIfSubMenu_inv:
  assumes "navInv w s"
  shows "\<exists>s'. leaveIfSubMenu s = Some s' \<and> navInv w s'"
proof -
  note n = navInvD[OF assms]
  obtain tbl where t: "table s = Some tbl" using n(4) by blast
  note e = onEntryD[OF n(3) t]
  note w = wf_tableD[OF e(1)]
  note td = table_SomeD[OF t]
  have l0: "0 < length tbl" using w(1) by linarith
  have ia: "itemAt tbl 0 = Some (tbl ! 0)" using l0 by (simp add: itemAt_def)
  show ?thesis
  proof (cases "itemType (tbl ! 0) = MENU_ITEM_SUB_MENU_HEADER")
    case False
    then show ?thesis using t ia assms by (simp add: leaveIfSubMenu_def isSubMenu_def)
  next
    case True
    have lv: "leaveIfSubMenu s = leaveSubMenu s (tbl ! 0)"
      using t ia True by (simp add: leaveIfSubMenu_def isSubMenu_def)
    show ?thesis
    proof (cases "subMenu (tbl ! 0)")
      case None
      then show ?thesis using lv assms by (simp add: leaveSubMenu_def)
    next
      case (Some p)
      have h0: "heap s ! currentMenuTable s ! 0 = tbl ! 0" using td by simp
      from n(6) have pp: "p < length (heap s) \<and> mementoOK w (maxRows s) (heap s ! p) \<and>
                          chainOK w (maxRows s) (heap s) p"
        using True Some h0 by (cases rule: chainOK.cases) simp_all
      define ptbl where "ptbl = heap s ! p"
      have pt: "tableAt (heap s) p = Some ptbl" using pp by (simp add: tableAt_def ptbl_def)
      have wp: "wf_table ptbl" unfolding ptbl_def using heapOKD(1)[OF n(1)] pp by blast
      note wpd = wf_tableD[OF wp]
      have lp: "0 < length ptbl" using wpd(1) by linarith
      have sz: "getMenuSize ptbl = Some (length ptbl)" by (rule getMenuSize_wf[OF wp])
      define s1 where
        "s1 = s\<lparr>currentMenuTable := p, currentMenuSize := length ptbl,
                top_pos := hdrTop (ptbl ! 0), bottom := hdrBottom (ptbl ! 0),
                cursorPosition := hdrCursorPosition (ptbl ! 0)\<rparr>"
      have eq: "leaveSubMenu s (tbl ! 0) = Some (update s1)"
        unfolding s1_def by (rule leaveSubMenu_eq[OF Some pt sz lp wpd(3)])
      have m: "mementoOK w (maxRows s) ptbl" using pp by (simp add: ptbl_def)
      have t1: "table s1 = Some ptbl"
        using pp by (simp add: s1_def table_def tableAt_def ptbl_def)
      have oe: "onEntry s1"
        using t1 wp m by (simp add: onEntry_def s1_def mementoOK_def)
      have "navInv w s1"
      proof (rule navInvI[OF _ _ oe t1])
        show "heapOK (heap s1)" using n(1) by (simp add: s1_def)
        show "maxRows s1 \<noteq> 0" using n(2) by (simp add: s1_def)
        show "\<not> hidden (ptbl ! unat (cursorPosition s1))"
          using m by (simp add: s1_def mementoOK_def)
        show "1 \<le> unat (top_pos s1)" using m by (simp add: s1_def mementoOK_def)
        show "unat (top_pos s1) \<le> unat (cursorPosition s1)"
          using m by (simp add: s1_def mementoOK_def)
        show "\<not> hidden (ptbl ! unat (top_pos s1))"
          using m by (simp add: s1_def mementoOK_def)
        show "bottom s1 = top_pos s1 + maxRows s1 - 1"
          using m by (simp add: s1_def mementoOK_def)
        show "chainOK w (maxRows s1) (heap s1) (currentMenuTable s1)"
          using pp by (simp add: s1_def)
        show "plain (maxRows s1) (heap s1)" if w using n(7)[OF that] by (simp add: s1_def)
        show "within (maxRows s1) (top_pos s1) (cursorPosition s1)" if w
          using m that by (simp add: s1_def mementoOK_def)
      qed
      then show ?thesis using lv eq by simp
    qed
  qed
qed

lemma commitEdit_inv:
  assumes "navInv w s" and "cursorItem s = Some it"
  shows "navInv w (commitEdit c s it)"
proof -
  have ci: "cursorItem (s\<lparr>isEditModeEnabled := False\<rparr>) = Some it" using assms(2) by simp
  have n1: "navInv w (s\<lparr>isEditModeEnabled := False\<rparr>)" using assms(1) by simp
  have a: "navInv w (putItem (s\<lparr>isEditModeEnabled := False\<rparr>) (unat (cursorPosition s)) it)"
    using navInv_put[OF n1 ci, of it] by simp
  have b: "navInv w (putItem (s\<lparr>isEditModeEnabled := False\<rparr>) (unat (cursorPosition s))
                    (restoreProgress it))"
    using navInv_put[OF n1 ci, of "restoreProgress it"] by simp
  show ?thesis using a b by (simp add: commitEdit_def Let_def)
qed

lemma backpress_inv:
  assumes "navInv w s"
  shows "\<exists>s'. backpress c s = Some s' \<and> navInv w s'"
proof -
  note n = navInvD[OF assms]
  obtain tbl where t: "table s = Some tbl" using n(4) by blast
  define it where "it = tbl ! unat (cursorPosition s)"
  have ci: "cursorItem s = Some it"
    unfolding it_def by (rule navInv_cursorItem[OF assms t])
  have ia: "itemAt tbl (unat (cursorPosition s)) = Some it"
    using ci t by (simp add: cursorItem_def)
  note lv = leaveIfSubMenu_inv[OF assms]
  note ce = commitEdit_inv[OF assms ci, of c]
  show ?thesis
    using t ia lv ce assms
    by (cases "itemType it") (simp_all add: backpress_def Let_def)
qed

lemma step_inv:
  assumes "navInv w s"
  shows "\<exists>s'. step i s = Some s' \<and> navInv w s'"
proof (cases i)
  case Up
  then show ?thesis using up_inv[OF assms] by auto
next
  case Down
  then show ?thesis using down_inv[OF assms] by auto
next
  case Enter
  then show ?thesis using enter_inv[OF assms] by simp
next
  case (Back c)
  then show ?thesis using backpress_inv[OF assms, of c] by simp
qed

lemma run_inv:
  "navInv w s \<Longrightarrow> \<exists>s'. run is s = Some s' \<and> navInv w s'"
proof (induction "is" arbitrary: s)
  case Nil
  then show ?case by simp
next
  case (Cons i "is")
  from step_inv[OF Cons.prems, of i] obtain s1 where s1: "step i s = Some s1" "navInv w s1"
    by blast
  from Cons.IH[OF s1(2)] s1(1) show ?case by simp
qed

lemma setup_inv:
  assumes "heapOK h" and "menu < length h" and "rows \<noteq> 0"
    and "itemType (h ! menu ! 0) \<noteq> MENU_ITEM_SUB_MENU_HEADER"
    and "w \<Longrightarrow> plain rows h"
  shows "\<exists>s. setupLcdWithMenu rows cols h menu = Some s \<and> navInv w s"
proof -
  have w: "wf_table (h ! menu)" by (rule heapOKD(1)[OF assms(1,2)])
  note wd = wf_tableD[OF w]
  define s0 :: LcdMenu where
    "s0 = \<lparr>cursorPosition = 1, top_pos = 1, isEditModeEnabled = False,
           isCharPickerActive = False, bottom = rows, maxRows = rows, maxCols = cols,
           blinkerPosition = 0, currentMenuTable = menu,
           currentMenuSize = length (h ! menu), enableUpdate = True, heap = h, events = []\<rparr>"
  have eq: "setupLcdWithMenu rows cols h menu = Some (update s0)"
    using assms(2) getMenuSize_wf[OF w] by (simp add: setupLcdWithMenu_def tableAt_def s0_def)
  have t0: "table s0 = Some (h ! menu)"
    using assms(2) by (simp add: s0_def table_def tableAt_def)
  have oe: "onEntry s0" using t0 w wd(1) by (simp add: onEntry_def s0_def)
  have "navInv w s0"
  proof (rule navInvI[OF _ _ oe t0])
    show "heapOK (heap s0)" using assms(1) by (simp add: s0_def)
    show "maxRows s0 \<noteq> 0" using assms(3) by (simp add: s0_def)
    show "\<not> hidden (h ! menu ! unat (cursorPosition s0))"
      using heapOKD(2)[OF assms(1,2)] by (simp add: s0_def)
    show "1 \<le> unat (top_pos s0)" by (simp add: s0_def)
    show "unat (top_pos s0) \<le> unat (cursorPosition s0)" by (simp add: s0_def)
    show "\<not> hidden (h ! menu ! unat (top_pos s0))"
      using heapOKD(2)[OF assms(1,2)] by (simp add: s0_def)
    show "bottom s0 = top_pos s0 + maxRows s0 - 1" by (simp add: s0_def)
    show "chainOK w (maxRows s0) (heap s0) (currentMenuTable s0)"
      using assms(4) by (simp add: s0_def chainOK.top_level)
    show "plain (maxRows s0) (heap s0)" if w using assms(5)[OF that] by (simp add: s0_def)
    show "within (maxRows s0) (top_pos s0) (cursorPosition s0)" if w
      using within_start[OF assms(3)] by (simp add: s0_def)
  qed
  then show ?thesis using eq by simp
qed

lemma heapOK_examples:
  "heapOK [thirdHidden]" "heapOK [fiveCommands]" "heapOK [rootMenu, settingsMenu]"
  by (simp_all add: heapOK_def linksOK_def linkOK_def wf_table_def thirdHidden_def
      fiveCommands_def menu_defs isHeader_def isStructural_def eval_nat_numeral)

lemma plain_example: "plain 2 [rootMenu, settingsMenu]"
  by (simp add: plain_def menu_defs)

section \<open>Gestures and the character picker\<close>

lemma list_wrap_active:
  assumes "cursorItem s = Some it" and "itemType it = MENU_ITEM_LIST"
    and "unat (itemIndex it) < unat (itemCount it)"
    and "\<not> (isEditModeEnabled s \<and> isCharPickerActive s)"
  shows "(\<exists>s'. repeatM (unat (itemCount it)) (right M) s = Some s' \<and> cursorItem s' = Some it) \<and>
         (\<exists>s'. (right M s \<bind> left m) = Some s' \<and> cursorItem s' = Some it) \<and>
         (\<exists>s'. (left m s \<bind> right M) = Some s' \<and> cursorItem s' = Some it) \<and>
         (\<exists>s'. left m s = Some s' \<and>
               map_option itemIndex (cursorItem s') =
                 Some (of_nat (if unat (itemIndex it) = 0 then unat (itemCount it) - 1
                               else unat (itemIndex it) - 1)))"
proof (intro conjI)
  let ?n = "unat (itemCount it)"
  let ?i = "unat (itemIndex it)"
  have n8: "?n < 256" by (rule unat_u8_bound)
  show "\<exists>s'. repeatM ?n (right M) s = Some s' \<and> cursorItem s' = Some it"
  proof -
    have "(?i + ?n) mod ?n = ?i" using assms(3) by simp
    then show ?thesis using rights_list_item[OF assms, of ?n M] by simp
  qed
  show "\<exists>s'. (right M s \<bind> left m) = Some s' \<and> cursorItem s' = Some it"
  proof -
    let ?it1 = "it\<lparr>itemIndex := of_nat (Suc ?i mod ?n)\<rparr>"
    obtain s1 where s1: "right M s = Some s1" "cursorItem s1 = Some ?it1"
        "isEditModeEnabled s1 = isEditModeEnabled s" "isCharPickerActive s1 = isCharPickerActive s"
      using right_list_item[OF assms, of M] by blast
    have lt: "Suc ?i mod ?n < ?n" using assms(3) by simp
    then have un: "unat (itemIndex ?it1) = Suc ?i mod ?n"
      using n8 by (simp add: unat_of_nat_u16)
    have "\<exists>s'. left m s1 = Some s' \<and>
           cursorItem s' =
             Some (?it1\<lparr>itemIndex := of_nat (if unat (itemIndex ?it1) = 0 then unat (itemCount ?it1) - 1
                                             else unat (itemIndex ?it1) - 1)\<rparr>) \<and>
           isEditModeEnabled s' = isEditModeEnabled s1 \<and>
           isCharPickerActive s' = isCharPickerActive s1"
      using s1 assms(2,4) lt un by (intro left_list_item) simp_all
    then obtain s2 where s2: "left m s1 = Some s2"
        "cursorItem s2 =
           Some (?it1\<lparr>itemIndex := of_nat (if unat (itemIndex ?it1) = 0 then unat (itemCount ?it1) - 1
                                           else unat (itemIndex ?it1) - 1)\<rparr>)"
      by blast
    have cnt: "unat (itemCount ?it1) = ?n" by simp
    have "(if Suc ?i mod ?n = 0 then ?n - 1 else Suc ?i mod ?n - 1) = ?i"
    proof (cases "Suc ?i = ?n")
      case True
      then show ?thesis by auto
    next
      case False
      then have "Suc ?i < ?n" using assms(3) by linarith
      then show ?thesis by simp
    qed
    then have val: "(if unat (itemIndex ?it1) = 0 then unat (itemCount ?it1) - 1
                     else unat (itemIndex ?it1) - 1) = ?i"
      unfolding un cnt .
    have "cursorItem s2 = Some it" using s2(2) unfolding val by simp
    then show ?thesis using s1(1) s2(1) by simp
  qed
  show "\<exists>s'. (left m s \<bind> right M) = Some s' \<and> cursorItem s' = Some it"
  proof -
    let ?p = "if ?i = 0 then ?n - 1 else ?i - 1"
    let ?it1 = "it\<lparr>itemIndex := of_nat ?p\<rparr>"
    obtain s1 where s1: "left m s = Some s1" "cursorItem s1 = Some ?it1"
        "isEditModeEnabled s1 = isEditModeEnabled s" "isCharPickerActive s1 = isCharPickerActive s"
      using left_list_item[OF assms, of m] by blast
    have lt: "?p < ?n" using assms(3) by auto
    then have "?p < 256" using n8 by linarith
    then have un: "unat (itemIndex ?it1) = ?p"
      by (simp only: list_item_fields unat_of_nat_u16)
    have "\<exists>s'. right M s1 = Some s' \<and>
           cursorItem s' =
             Some (?it1\<lparr>itemIndex := of_nat (Suc (unat (itemIndex ?it1)) mod unat (itemCount ?it1))\<rparr>) \<and>
           isEditModeEnabled s' = isEditModeEnabled s1 \<and>
           isCharPickerActive s' = isCharPickerActive s1"
      using s1 assms(2,4) lt un by (intro right_list_item) (simp_all del: of_nat_diff)
    then obtain s2 where s2: "right M s1 = Some s2"
        "cursorItem s2 =
           Some (?it1\<lparr>itemIndex := of_nat (Suc (unat (itemIndex ?it1)) mod unat (itemCount ?it1))\<rparr>)"
      by blast
    have cnt: "unat (itemCount ?it1) = ?n" by simp
    have "Suc ?p mod ?n = ?i" using assms(3) by auto
    then have val: "Suc (unat (itemIndex ?it1)) mod unat (itemCount ?it1) = ?i"
      unfolding un cnt .
    have "cursorItem s2 = Some it" using s2(2) unfolding val by simp
    then show ?thesis using s1(1) s2(1) by simp
  qed
  show "\<exists>s'. left m s = Some s' \<and>
               map_option itemIndex (cursorItem s') =
                 Some (of_nat (if ?i = 0 then ?n - 1 else ?i - 1))"
    using left_list_item[OF assms, of m] by (auto simp del: of_nat_diff)
qed

lemma list_feedback_active:
  assumes "cursorItem s = Some it" and "itemType it = MENU_ITEM_LIST"
    and "unat (itemIndex it) < unat (itemCount it)"
    and "\<not> (isEditModeEnabled s \<and> isCharPickerActive s)"
  shows "\<exists>s1 s2 i1 i2.
           left m s = Some s1 \<and> cursorItem s1 = Some (it\<lparr>itemIndex := i1\<rparr>) \<and>
           events s1 = events s @ (if hasChangeCallback it then [ValueChanged i1] else [])
                                @ (if i1 \<noteq> itemIndex it \<and> enableUpdate s then [Redraw] else []) \<and>
           right M s = Some s2 \<and> cursorItem s2 = Some (it\<lparr>itemIndex := i2\<rparr>) \<and>
           events s2 = events s @ (if hasChangeCallback it then [ValueChanged i2] else [])
                                @ (if enableUpdate s then [Redraw] else [])"
proof -
  define i1 :: u16 where
    "i1 = of_nat (if unat (itemIndex it) = 0 then unat (itemCount it) - 1
                  else unat (itemIndex it) - 1)"
  define i2 :: u16 where
    "i2 = of_nat (Suc (unat (itemIndex it)) mod unat (itemCount it))"
  define s1 where
    "s1 = (if itemIndex it \<noteq> i1 then update else id)
            (notify (if hasChangeCallback it then [ValueChanged i1] else [])
               (putItem s (unat (cursorPosition s)) (it\<lparr>itemIndex := i1\<rparr>)))"
  define s2 where
    "s2 = update (notify (if hasChangeCallback it then [ValueChanged i2] else [])
               (putItem s (unat (cursorPosition s)) (it\<lparr>itemIndex := i2\<rparr>)))"
  have l: "left m s = Some s1"
    unfolding s1_def by (rule left_list[OF assms i1_def])
  have r: "right M s = Some s2"
    unfolding s2_def i2_def by (rule right_list[OF assms])
  have c1: "cursorItem s1 = Some (it\<lparr>itemIndex := i1\<rparr>)"
    unfolding s1_def using cursorItem_putItem[OF assms(1)] by simp
  have c2: "cursorItem s2 = Some (it\<lparr>itemIndex := i2\<rparr>)"
    unfolding s2_def using cursorItem_putItem[OF assms(1)] by simp
  have e1: "events s1 = events s @ (if hasChangeCallback it then [ValueChanged i1] else [])
                                @ (if i1 \<noteq> itemIndex it \<and> enableUpdate s then [Redraw] else [])"
    unfolding s1_def by auto
  have e2: "events s2 = events s @ (if hasChangeCallback it then [ValueChanged i2] else [])
                                @ (if enableUpdate s then [Redraw] else [])"
    unfolding s2_def by simp
  show ?thesis using l r c1 c2 e1 e2 by blast
qed

lemma blocked_gestures:
  assumes "isEditModeEnabled s \<and> isCharPickerActive s"
  shows "left m s = Some s" and "right M s = Some s"
  using assms by (simp_all add: left_def right_def isInEditMode_def)

lemma picker_reached:
  "setupLcdWithMenu 2 16 [pickerMenu] 0 =
     Some ((startState 2 [pickerMenu])\<lparr>events := [Redraw]\<rparr>)"
  "(map_option snd (down ((startState 2 [pickerMenu])\<lparr>events := [Redraw]\<rparr>)) \<bind> enter \<bind>
      drawChar c \<bind> backpress False \<bind> (\<lambda>s. map_option snd (up s)) \<bind> enter) =
     Some pickerState"
proof -
  show "setupLcdWithMenu 2 16 [pickerMenu] 0 =
     Some ((startState 2 [pickerMenu])\<lparr>events := [Redraw]\<rparr>)"
    by (simp add: setupLcdWithMenu_def tableAt_def getMenuSize_def getMenuSize_loop.simps
        startState_def update_def notify_def pickerMenu_def colourList_def mkItem_def)
  let ?s0 = "(startState 2 [pickerMenu])\<lparr>events := [Redraw]\<rparr>"
  let ?s1 = "?s0\<lparr>cursorPosition := 2, events := [Redraw, Redraw]\<rparr>"
  let ?s2 = "?s1\<lparr>isEditModeEnabled := True, events := [Redraw, Redraw, CursorDrawn]\<rparr>"
  let ?s3 = "?s2\<lparr>isCharPickerActive := True, blinkerPosition := 2\<rparr>"
  let ?s4 = "?s3\<lparr>isEditModeEnabled := False,
                 events := [Redraw, Redraw, CursorDrawn, Redraw]\<rparr>"
  let ?s5 = "?s4\<lparr>cursorPosition := 1,
                 events := [Redraw, Redraw, CursorDrawn, Redraw, Redraw]\<rparr>"
  have e1: "down ?s0 = Some (True, ?s1)"
    by (simp add: down_eval tableAt_def startState_def pickerMenu_def colourList_def mkItem_def)
  have e2: "enter ?s1 = Some ?s2"
    by (simp add: gesture_eval table_def tableAt_def itemAt_def startState_def pickerMenu_def
        colourList_def mkItem_def)
  have e3: "drawChar c ?s2 = Some ?s3"
    by (simp add: drawChar_def resetBlinker_def constrain_def table_def tableAt_def itemAt_def
        startState_def pickerMenu_def colourList_def mkItem_def)
  have e4: "backpress False ?s3 = Some ?s4"
    by (simp add: gesture_eval table_def tableAt_def itemAt_def startState_def pickerMenu_def
        colourList_def mkItem_def)
  have e5: "up ?s4 = Some (True, ?s5)"
    by (simp add: up_eval startState_def pickerMenu_def colourList_def mkItem_def)
  have e6: "enter ?s5 = Some pickerState"
    by (simp add: gesture_eval table_def tableAt_def itemAt_def startState_def pickerMenu_def
        colourList_def mkItem_def pickerState_def)
  show "(map_option snd (down ?s0) \<bind> enter \<bind> drawChar c \<bind> backpress False \<bind>
           (\<lambda>s. map_option snd (up s)) \<bind> enter) = Some pickerState"
    by (simp only: e1 e2 e3 e4 e5 e6 bind.bind_lunit option.map snd_conv)
qed

lemma pickerState_facts:
  "isEditModeEnabled pickerState \<and> isCharPickerActive pickerState"
  "cursorItem pickerState = Some colourList"
  "itemType colourList = MENU_ITEM_LIST"
  "unat (itemIndex colourList) < unat (itemCount colourList)"
  "itemIndex colourList = 0" "itemCount colourList = 3"
  by (simp_all add: pickerState_def pickerMenu_def example_defs)

section \<open>Scenario: five entries on three rows\<close>

text \<open>
  C8.  A root table with five visible, non-structural entries on a display
  of three rows starts with the cursor on entry 1 and the window \<open>[1, 3]\<close>.
  Four calls of \<^verbatim>\<open>down()\<close> leave the cursor on entry 5 and the window at
  \<open>[3, 5]\<close>; a fifth call returns \<^verbatim>\<open>false\<close> and changes nothing.
\<close>

theorem five_entries_scenario:
  assumes "tableAt hp root = Some [h, e1, e2, e3, e4, e5, f]"
    and "isHeader h" and "itemType f = MENU_ITEM_END_OF_MENU"
    and "\<not> isStructural e1 \<and> \<not> isStructural e2 \<and> \<not> isStructural e3 \<and>
         \<not> isStructural e4 \<and> \<not> isStructural e5"
    and "\<not> hidden e1 \<and> \<not> hidden e2 \<and> \<not> hidden e3 \<and> \<not> hidden e4 \<and> \<not> hidden e5"
  shows "\<exists>s0 s4. setupLcdWithMenu 3 cols hp root = Some s0 \<and>
           cursorPosition s0 = 1 \<and> top_pos s0 = 1 \<and> bottom s0 = 3 \<and>
           run [Down, Down, Down, Down] s0 = Some s4 \<and>
           cursorPosition s4 = 5 \<and> top_pos s4 = 3 \<and> bottom s4 = 5 \<and>
           down s4 = Some (False, s4)"
proof -
  have t: "root < length hp" "hp ! root = [h, e1, e2, e3, e4, e5, f]"
    using assms(1) by (auto simp: tableAt_def split: if_splits)
  have sz: "getMenuSize [h, e1, e2, e3, e4, e5, f] = Some 7"
    using assms(2,3,4)
    by (auto simp add: getMenuSize_def getMenuSize_loop.simps isStructural_def isHeader_def)
  show ?thesis
    using t sz assms(5)
    by (simp add: setupLcdWithMenu_def tableAt_def down_eval)
qed

theorem five_entries_scenario_witness:
  "map_option (\<lambda>s. (cursorPosition s, top_pos s, bottom s))
     (setupLcdWithMenu 3 16 [fiveCommands] 0 \<bind> run [Down, Down, Down, Down]) = Some (5, 3, 5) \<and>
   (setupLcdWithMenu 3 16 [fiveCommands] 0 \<bind> run [Down, Down, Down, Down] \<bind>
      (\<lambda>s. map_option (\<lambda>r. r = (False, s)) (down s))) = Some True"
proof -
  have "\<exists>s0 s4. setupLcdWithMenu 3 16 [fiveCommands] 0 = Some s0 \<and>
           cursorPosition s0 = 1 \<and> top_pos s0 = 1 \<and> bottom s0 = 3 \<and>
           run [Down, Down, Down, Down] s0 = Some s4 \<and>
           cursorPosition s4 = 5 \<and> top_pos s4 = 3 \<and> bottom s4 = 5 \<and>
           down s4 = Some (False, s4)"
    by (rule five_entries_scenario [of "[fiveCommands]" 0 "mkItem MENU_ITEM_MAIN_MENU_HEADER"
          "mkItem MENU_ITEM_COMMAND" "mkItem MENU_ITEM_COMMAND" "mkItem MENU_ITEM_COMMAND"
          "mkItem MENU_ITEM_COMMAND" "mkItem MENU_ITEM_COMMAND" "mkItem MENU_ITEM_END_OF_MENU"])
       (simp_all add: fiveCommands_def tableAt_def mkItem_def isHeader_def isStructural_def)
  then obtain s0 s4 where a: "setupLcdWithMenu 3 16 [fiveCommands] 0 = Some s0"
      "run [Down, Down, Down, Down] s0 = Some s4"
      "cursorPosition s4 = 5" "top_pos s4 = 3" "bottom s4 = 5" "down s4 = Some (False, s4)"
    by blast
  show ?thesis using a by (simp del: run.simps)
qed

section \<open>Progress items\<close>

text \<open>
  C4.  The saturation law fails for a step length above one.  With the bounds
  \<open>[0, 1000]\<close>, a progress item at 999 with step length 2 is incremented to
  1001, above the maximum; at 1 with step length 2 it is decremented to
  65535, the 16-bit value wrapping below the minimum.
\<close>

theorem progress_leaves_bounds:
  "progress (increment 1000 ((mkItem MENU_ITEM_PROGRESS)\<lparr>progress := 999, stepLength := 2\<rparr>)) = 1001 \<and>
   progress (decrement 0 ((mkItem MENU_ITEM_PROGRESS)\<lparr>progress := 1, stepLength := 2\<rparr>)) = 65535"
  by (simp add: increment_def decrement_def mkItem_def)

section \<open>List items: the wrap law\<close>

text \<open>
  C6, as stated, fails for a list that is edited while the character picker
  is still marked active.  On the picker menu, \<^verbatim>\<open>down()\<close> to the input
  item, \<^verbatim>\<open>enter()\<close>, \<^verbatim>\<open>drawChar\<close>, \<^verbatim>\<open>back()\<close>, \<^verbatim>\<open>up()\<close> and
  \<^verbatim>\<open>enter()\<close> on the list leave the colour list (three items, index 0) in
  edit mode with the picker flag set; there \<^verbatim>\<open>left()\<close> returns at once
  and the index stays 0 instead of becoming 2.
\<close>

theorem picker_blocks_wrap_counterexample:
  "setupLcdWithMenu 2 16 [pickerMenu] 0 =
     Some ((startState 2 [pickerMenu])\<lparr>events := [Redraw]\<rparr>) \<and>
   (map_option snd (down ((startState 2 [pickerMenu])\<lparr>events := [Redraw]\<rparr>)) \<bind> enter \<bind>
      drawChar CHR ''a'' \<bind> backpress False \<bind> (\<lambda>s. map_option snd (up s)) \<bind> enter) =
     Some pickerState \<and>
   map_option itemType (cursorItem pickerState) = Some MENU_ITEM_LIST \<and>
   map_option itemCount (cursorItem pickerState) = Some 3 \<and>
   map_option itemIndex (cursorItem pickerState) = Some 0 \<and>
   left 0 pickerState = Some pickerState"
proof -
  have a: "map_option itemType (cursorItem pickerState) = Some MENU_ITEM_LIST"
    "map_option itemCount (cursorItem pickerState) = Some 3"
    "map_option itemIndex (cursorItem pickerState) = Some 0"
    by (simp_all add: pickerState_facts)
  show ?thesis
    by (intro conjI picker_reached a blocked_gestures(1)[OF pickerState_facts(1)])
qed

text \<open>
  C6, amended.  On a list item with \<open>n\<close> items and index \<open>i < n\<close>: unless
  edit mode is on and the character picker is marked active, \<open>n\<close> calls of
  \<^verbatim>\<open>right()\<close> bring the item back to what it was, \<^verbatim>\<open>left()\<close> after
  \<^verbatim>\<open>right()\<close> and \<^verbatim>\<open>right()\<close> after \<^verbatim>\<open>left()\<close> do so too, and
  \<^verbatim>\<open>left()\<close> moves index 0 to \<open>n - 1\<close> and any other index one down.
  While edit mode is on and the character picker is marked active,
  \<^verbatim>\<open>left()\<close> and \<^verbatim>\<open>right()\<close> leave the whole state as it is.
\<close>

theorem list_wrap_law:
  assumes "cursorItem s = Some it" and "itemType it = MENU_ITEM_LIST"
    and "unat (itemIndex it) < unat (itemCount it)"
  shows "(\<not> (isEditModeEnabled s \<and> isCharPickerActive s) \<longrightarrow>
            (\<exists>s'. repeatM (unat (itemCount it)) (right M) s = Some s' \<and>
                  cursorItem s' = Some it) \<and>
            (\<exists>s'. (right M s \<bind> left m) = Some s' \<and> cursorItem s' = Some it) \<and>
            (\<exists>s'. (left m s \<bind> right M) = Some s' \<and> cursorItem s' = Some it) \<and>
            (\<exists>s'. left m s = Some s' \<and>
                  map_option itemIndex (cursorItem s') =
                    Some (of_nat (if unat (itemIndex it) = 0 then unat (itemCount it) - 1
                                  else unat (itemIndex it) - 1)))) \<and>
         (isEditModeEnabled s \<and> isCharPickerActive s \<longrightarrow>
            left m s = Some s \<and> right M s = Some s)"
proof (rule conjI)
  show "\<not> (isEditModeEnabled s \<and> isCharPickerActive s) \<longrightarrow>
        ((\<exists>s'. repeatM (unat (itemCount it)) (right M) s = Some s' \<and>
                  cursorItem s' = Some it) \<and>
            (\<exists>s'. (right M s \<bind> left m) = Some s' \<and> cursorItem s' = Some it) \<and>
            (\<exists>s'. (left m s \<bind> right M) = Some s' \<and> cursorItem s' = Some it) \<and>
            (\<exists>s'. left m s = Some s' \<and>
                  map_option itemIndex (cursorItem s') =
                    Some (of_nat (if unat (itemIndex it) = 0 then unat (itemCount it) - 1
                                  else unat (itemIndex it) - 1))))"
  proof (rule impI)
    assume a: "\<not> (isEditModeEnabled s \<and> isCharPickerActive s)"
    show "(\<exists>s'. repeatM (unat (itemCount it)) (right M) s = Some s' \<and>
                  cursorItem s' = Some it) \<and>
            (\<exists>s'. (right M s \<bind> left m) = Some s' \<and> cursorItem s' = Some it) \<and>
            (\<exists>s'. (left m s \<bind> right M) = Some s' \<and> cursorItem s' = Some it) \<and>
            (\<exists>s'. left m s = Some s' \<and>
                  map_option itemIndex (cursorItem s') =
                    Some (of_nat (if unat (itemIndex it) = 0 then unat (itemCount it) - 1
                                  else unat (itemIndex it) - 1)))"
      by (rule list_wrap_active[OF assms a])
  qed
  show "isEditModeEnabled s \<and> isCharPickerActive s \<longrightarrow>
        left m s = Some s \<and> right M s = Some s"
  proof (rule impI)
    assume b: "isEditModeEnabled s \<and> isCharPickerActive s"
    show "left m s = Some s \<and> right M s = Some s"
      by (rule conjI[OF blocked_gestures(1)[OF b] blocked_gestures(2)[OF b]])
  qed
qed

text \<open>
  The colour list (Red, Green, Blue) at index 0 after set-up, and the same
  list edited with the character picker marked active.
\<close>

theorem list_wrap_law_witness:
  "cursorItem (startState 2 [colourMenu]) = Some colourList \<and>
   itemIndex colourList = 0 \<and> itemCount colourList = 3 \<and>
   (\<exists>s'. repeatM 3 (right 1000) (startState 2 [colourMenu]) = Some s' \<and>
         cursorItem s' = Some colourList) \<and>
   (\<exists>s'. (right 1000 (startState 2 [colourMenu]) \<bind> left 0) = Some s' \<and>
         cursorItem s' = Some colourList) \<and>
   (\<exists>s'. (left 0 (startState 2 [colourMenu]) \<bind> right 1000) = Some s' \<and>
         cursorItem s' = Some colourList) \<and>
   (\<exists>s'. left 0 (startState 2 [colourMenu]) = Some s' \<and>
         map_option itemIndex (cursorItem s') = Some 2) \<and>
   cursorItem pickerState = Some colourList \<and>
   isEditModeEnabled pickerState \<and> isCharPickerActive pickerState \<and>
   left 0 pickerState = Some pickerState \<and> right 1000 pickerState = Some pickerState"
proof -
  have c: "cursorItem (startState 2 [colourMenu]) = Some colourList"
    by (simp add: example_defs)
  note t = pickerState_facts(3)
  note i = pickerState_facts(5,6)
  note b = pickerState_facts(4)
  have a: "\<not> (isEditModeEnabled (startState 2 [colourMenu]) \<and>
               isCharPickerActive (startState 2 [colourMenu]))"
    by (simp add: startState_def)
  have p: "isEditModeEnabled pickerState" "isCharPickerActive pickerState"
    using pickerState_facts(1) by simp_all
  have w1: "(\<exists>s'. repeatM 3 (right 1000) (startState 2 [colourMenu]) = Some s' \<and>
         cursorItem s' = Some colourList) \<and>
   (\<exists>s'. (right 1000 (startState 2 [colourMenu]) \<bind> left 0) = Some s' \<and>
         cursorItem s' = Some colourList) \<and>
   (\<exists>s'. (left 0 (startState 2 [colourMenu]) \<bind> right 1000) = Some s' \<and>
         cursorItem s' = Some colourList) \<and>
   (\<exists>s'. left 0 (startState 2 [colourMenu]) = Some s' \<and>
         map_option itemIndex (cursorItem s') = Some 2)"
    using list_wrap_law [OF c t b, of 1000 0] a i by simp
  have w2: "left 0 pickerState = Some pickerState \<and> right 1000 pickerState = Some pickerState"
    using list_wrap_law [OF pickerState_facts(2) t b, of 1000 0] p by simp
  show ?thesis using c i w1 w2 p pickerState_facts(2) by simp
qed

section \<open>List items: notification and redraw\<close>

text \<open>
  C5, as stated, fails: on a list of one item \<^verbatim>\<open>right()\<close> leaves the index at
  0, yet the change callback is called and the menu is redrawn.
\<close>

theorem single_item_right_counterexample:
  "right 1000 (startState 2 [singleMenu]) =
     Some ((startState 2 [singleMenu])\<lparr>events := [ValueChanged 0, Redraw]\<rparr>)"
  by (simp add: right_def isInEditMode_def setItemIndex_def getItemIndex_def constrain_def
      update_def notify_def putItem_def example_defs)

text \<open>
  C5, amended.  On a list item with at least one item and its index in
  range: unless edit mode is on and the character picker is marked active,
  \<^verbatim>\<open>left()\<close> and \<^verbatim>\<open>right()\<close> call the change callback, when one is set,
  with the resulting index on every gesture, whether or not the index
  changed; \<^verbatim>\<open>right()\<close> redraws on every gesture and \<^verbatim>\<open>left()\<close> redraws
  only if the index changed (a redraw happens only while updates are
  enabled).  While edit mode is on and the character picker is marked
  active, \<^verbatim>\<open>left()\<close> and \<^verbatim>\<open>right()\<close> return at once: no callback, no
  redraw, and the whole state stays as it is.
\<close>

theorem list_gesture_feedback:
  assumes "cursorItem s = Some it" and "itemType it = MENU_ITEM_LIST"
    and "unat (itemIndex it) < unat (itemCount it)"
  shows "(\<not> (isEditModeEnabled s \<and> isCharPickerActive s) \<longrightarrow>
          (\<exists>s1 s2 i1 i2.
             left m s = Some s1 \<and> cursorItem s1 = Some (it\<lparr>itemIndex := i1\<rparr>) \<and>
             events s1 = events s @ (if hasChangeCallback it then [ValueChanged i1] else [])
                                  @ (if i1 \<noteq> itemIndex it \<and> enableUpdate s then [Redraw] else []) \<and>
             right M s = Some s2 \<and> cursorItem s2 = Some (it\<lparr>itemIndex := i2\<rparr>) \<and>
             events s2 = events s @ (if hasChangeCallback it then [ValueChanged i2] else [])
                                  @ (if enableUpdate s then [Redraw] else []))) \<and>
         (isEditModeEnabled s \<and> isCharPickerActive s \<longrightarrow>
            left m s = Some s \<and> right M s = Some s)"
proof (rule conjI)
  show "\<not> (isEditModeEnabled s \<and> isCharPickerActive s) \<longrightarrow>
        (\<exists>s1 s2 i1 i2.
             left m s = Some s1 \<and> cursorItem s1 = Some (it\<lparr>itemIndex := i1\<rparr>) \<and>
             events s1 = events s @ (if hasChangeCallback it then [ValueChanged i1] else [])
                                  @ (if i1 \<noteq> itemIndex it \<and> enableUpdate s then [Redraw] else []) \<and>
             right M s = Some s2 \<and> cursorItem s2 = Some (it\<lparr>itemIndex := i2\<rparr>) \<and>
             events s2 = events s @ (if hasChangeCallback it then [ValueChanged i2] else [])
                                  @ (if enableUpdate s then [Redraw] else []))"
  proof (rule impI)
    assume a: "\<not> (isEditModeEnabled s \<and> isCharPickerActive s)"
    show "\<exists>s1 s2 i1 i2.
             left m s = Some s1 \<and> cursorItem s1 = Some (it\<lparr>itemIndex := i1\<rparr>) \<and>
             events s1 = events s @ (if hasChangeCallback it then [ValueChanged i1] else [])
                                  @ (if i1 \<noteq> itemIndex it \<and> enableUpdate s then [Redraw] else []) \<and>
             right M s = Some s2 \<and> cursorItem s2 = Some (it\<lparr>itemIndex := i2\<rparr>) \<and>
             events s2 = events s @ (if hasChangeCallback it then [ValueChanged i2] else [])
                                  @ (if enableUpdate s then [Redraw] else [])"
      by (rule list_feedback_active[OF assms a])
  qed
  show "isEditModeEnabled s \<and> isCharPickerActive s \<longrightarrow>
        left m s = Some s \<and> right M s = Some s"
  proof (rule impI)
    assume b: "isEditModeEnabled s \<and> isCharPickerActive s"
    show "left m s = Some s \<and> right M s = Some s"
      by (rule conjI[OF blocked_gestures(1)[OF b] blocked_gestures(2)[OF b]])
  qed
qed

text \<open>
  The list of one item after set-up, and the colour list edited with the
  character picker marked active.
\<close>

theorem list_gesture_feedback_witness:
  "cursorItem (startState 2 [singleMenu]) = Some singleList \<and>
   (\<exists>s1 s2 i1 i2.
      left 0 (startState 2 [singleMenu]) = Some s1 \<and>
      cursorItem s1 = Some (singleList\<lparr>itemIndex := i1\<rparr>) \<and>
      events s1 = events (startState 2 [singleMenu])
                  @ (if hasChangeCallback singleList then [ValueChanged i1] else [])
                  @ (if i1 \<noteq> itemIndex singleList \<and> enableUpdate (startState 2 [singleMenu])
                     then [Redraw] else []) \<and>
      right 1000 (startState 2 [singleMenu]) = Some s2 \<and>
      cursorItem s2 = Some (singleList\<lparr>itemIndex := i2\<rparr>) \<and>
      events s2 = events (startState 2 [singleMenu])
                  @ (if hasChangeCallback singleList then [ValueChanged i2] else [])
                  @ (if enableUpdate (startState 2 [singleMenu]) then [Redraw] else [])) \<and>
   cursorItem pickerState = Some colourList \<and>
   isEditModeEnabled pickerState \<and> isCharPickerActive pickerState \<and>
   left 0 pickerState = Some pickerState \<and> right 1000 pickerState = Some pickerState"
proof -
  have c: "cursorItem (startState 2 [singleMenu]) = Some singleList"
    by (simp add: example_defs)
  have t: "itemType singleList = MENU_ITEM_LIST" by (simp add: singleList_def mkItem_def)
  have b: "unat (itemIndex singleList) < unat (itemCount singleList)"
    by (simp add: singleList_def mkItem_def)
  have a: "\<not> (isEditModeEnabled (startState 2 [singleMenu]) \<and>
               isCharPickerActive (startState 2 [singleMenu]))"
    by (simp add: startState_def)
  have p: "isEditModeEnabled pickerState" "isCharPickerActive pickerState"
    using pickerState_facts(1) by simp_all
  note w1 = list_gesture_feedback [OF c t b, of 0 1000, THEN conjunct1, THEN mp, OF a]
  note w2 = list_gesture_feedback [OF pickerState_facts(2,3,4), of 0 1000, THEN conjunct2, THEN mp,
      OF pickerState_facts(1)]
  show ?thesis
    by (intro conjI c w1 pickerState_facts(2) p conjunct1[OF w2] conjunct2[OF w2])
qed

section \<open>Edit mode: cancel and commit\<close>

text \<open>
  C7.  With the cursor on a list or progress item holding the value \<open>v0\<close>
  while browsing, \<^verbatim>\<open>enter()\<close> followed by any sequence of left and right
  gestures returns, in edit mode, with some value \<open>v1\<close>.  Then
  \<^verbatim>\<open>back(true)\<close> leaves edit mode, restores the value \<open>v0\<close> and calls the
  commit callback, when one is set, with \<open>v0\<close>; \<^verbatim>\<open>back(false)\<close> leaves edit
  mode, keeps \<open>v1\<close> and calls the commit callback with \<open>v1\<close>.  In both cases
  the active table stays the same.
\<close>

theorem cancel_restore_law:
  assumes "cursorItem s = Some it"
    and "itemType it = MENU_ITEM_LIST \<or> itemType it = MENU_ITEM_PROGRESS"
    and "itemCount it \<noteq> 0 \<or> itemType it = MENU_ITEM_PROGRESS"
    and "\<not> isEditModeEnabled s"
  shows "\<exists>s1 s2 it2 sc sk itc itk.
      enter s = Some s1 \<and> applyGestures m M gs s1 = Some s2 \<and>
      isEditModeEnabled s2 \<and> cursorItem s2 = Some it2 \<and>
      backpress True s2 = Some sc \<and> \<not> isEditModeEnabled sc \<and>
      cursorItem sc = Some itc \<and> getItemIndex itc = getItemIndex it \<and>
      events sc = events s2 @ (if hasCallback it then [EditCommitted (getItemIndex it)] else [])
                            @ (if enableUpdate s then [Redraw] else []) \<and>
      currentMenuTable sc = currentMenuTable s \<and>
      backpress False s2 = Some sk \<and> \<not> isEditModeEnabled sk \<and>
      cursorItem sk = Some itk \<and> getItemIndex itk = getItemIndex it2 \<and>
      events sk = events s2 @ (if hasCallback it then [EditCommitted (getItemIndex it2)] else [])
                            @ (if enableUpdate s then [Redraw] else []) \<and>
      currentMenuTable sk = currentMenuTable s"
proof -
  define s1 where
    "s1 = drawCursor (putItem (s\<lparr>isEditModeEnabled := True\<rparr>) (unat (cursorPosition s))
            (saveProgress it))"
  have e: "enter s = Some s1" unfolding s1_def by (rule enter_edit[OF assms(1,2,4)])
  have a: "cursorItem (s\<lparr>isEditModeEnabled := True\<rparr>) = Some it" using assms(1) by simp
  have c1: "cursorItem s1 = Some (saveProgress it)"
    unfolding s1_def drawCursor_def using cursorItem_putItem[OF a] by simp
  have n1: "isEditModeEnabled s1" "currentMenuTable s1 = currentMenuTable s"
    "enableUpdate s1 = enableUpdate s"
    unfolding s1_def drawCursor_def by (simp_all add: notify_def putItem_def)
  have t1: "itemType (saveProgress it) = MENU_ITEM_LIST \<or>
            itemType (saveProgress it) = MENU_ITEM_PROGRESS"
    "itemCount (saveProgress it) \<noteq> 0 \<or> itemType (saveProgress it) = MENU_ITEM_PROGRESS"
    "hasCallback (saveProgress it) = hasCallback it"
    using assms(2,3) by (auto simp: saveProgress_def)
  obtain s2 it2 where g: "applyGestures m M gs s1 = Some s2" "cursorItem s2 = Some it2"
      "sameNav s1 s2" "sameSnapshot (saveProgress it) it2"
    using gestures_frame[OF c1 t1(1,2), of m M gs] by blast
  have n2: "isEditModeEnabled s2" "currentMenuTable s2 = currentMenuTable s"
    "enableUpdate s2 = enableUpdate s"
    using g(3) n1 by (simp_all add: sameNav_def)
  have t2: "itemType it2 = MENU_ITEM_LIST \<or> itemType it2 = MENU_ITEM_PROGRESS"
    "hasCallback it2 = hasCallback it"
    using g(4) t1 by (auto simp: sameSnapshot_def)
  have v0: "getItemIndex (restoreProgress it2) = getItemIndex it"
    by (rule restore_after_save[OF g(4)])
  note bc = backpress_edit[OF g(2) t2(1) n2(1), of True]
  note bk = backpress_edit[OF g(2) t2(1) n2(1), of False]
  note fc = commitEdit_facts[OF g(2), of True]
  note fk = commitEdit_facts[OF g(2), of False]
  show ?thesis
    apply (rule exI[of _ s1], rule exI[of _ s2], rule exI[of _ it2])
    apply (rule exI[of _ "commitEdit True s2 it2"], rule exI[of _ "commitEdit False s2 it2"])
    apply (rule exI[of _ "restoreProgress it2"], rule exI[of _ it2])
    using e g(1,2) n2 bc bk fc fk v0 t2(2)
    apply simp
    done
qed

text \<open>The colour list at index 0, moved to index 1 by one right gesture.\<close>

theorem cancel_restore_law_witness:
  "cursorItem (startState 2 [colourMenu]) = Some colourList \<and>
   itemType colourList = MENU_ITEM_LIST \<and> itemCount colourList \<noteq> 0 \<and>
   \<not> isEditModeEnabled (startState 2 [colourMenu]) \<and>
   (enter (startState 2 [colourMenu]) \<bind> applyGestures 0 1000 [CycleRight] \<bind>
      (\<lambda>s. map_option getItemIndex (cursorItem s))) = Some 1 \<and>
   (enter (startState 2 [colourMenu]) \<bind> applyGestures 0 1000 [CycleRight] \<bind> backpress True \<bind>
      (\<lambda>s. map_option getItemIndex (cursorItem s))) = Some 0 \<and>
   (enter (startState 2 [colourMenu]) \<bind> applyGestures 0 1000 [CycleRight] \<bind> backpress False \<bind>
      (\<lambda>s. map_option getItemIndex (cursorItem s))) = Some 1 \<and>
   (\<exists>s1 s2 it2 sc sk itc itk.
      enter (startState 2 [colourMenu]) = Some s1 \<and>
      applyGestures 0 1000 [CycleRight] s1 = Some s2 \<and>
      isEditModeEnabled s2 \<and> cursorItem s2 = Some it2 \<and>
      backpress True s2 = Some sc \<and> \<not> isEditModeEnabled sc \<and>
      cursorItem sc = Some itc \<and> getItemIndex itc = getItemIndex colourList \<and>
      events sc = events s2 @ (if hasCallback colourList
                               then [EditCommitted (getItemIndex colourList)] else [])
                            @ (if enableUpdate (startState 2 [colourMenu]) then [Redraw] else []) \<and>
      currentMenuTable sc = currentMenuTable (startState 2 [colourMenu]) \<and>
      backpress False s2 = Some sk \<and> \<not> isEditModeEnabled sk \<and>
      cursorItem sk = Some itk \<and> getItemIndex itk = getItemIndex it2 \<and>
      events sk = events s2 @ (if hasCallback colourList
                               then [EditCommitted (getItemIndex it2)] else [])
                            @ (if enableUpdate (startState 2 [colourMenu]) then [Redraw] else []) \<and>
      currentMenuTable sk = currentMenuTable (startState 2 [colourMenu]))"
proof -
  have c: "cursorItem (startState 2 [colourMenu]) = Some colourList"
    by (simp add: example_defs)
  have t: "itemType colourList = MENU_ITEM_LIST" by (simp add: colourList_def mkItem_def)
  have n: "itemCount colourList \<noteq> 0" by (simp add: colourList_def mkItem_def)
  have e: "\<not> isEditModeEnabled (startState 2 [colourMenu])" by (simp add: startState_def)
  have v1: "(enter (startState 2 [colourMenu]) \<bind> applyGestures 0 1000 [CycleRight] \<bind>
      (\<lambda>s. map_option getItemIndex (cursorItem s))) = Some 1"
    by (simp add: gesture_eval example_defs)
  have vc: "(enter (startState 2 [colourMenu]) \<bind> applyGestures 0 1000 [CycleRight] \<bind> backpress True \<bind>
      (\<lambda>s. map_option getItemIndex (cursorItem s))) = Some 0"
    by (simp add: gesture_eval example_defs)
  have vk: "(enter (startState 2 [colourMenu]) \<bind> applyGestures 0 1000 [CycleRight] \<bind> backpress False \<bind>
      (\<lambda>s. map_option getItemIndex (cursorItem s))) = Some 1"
    by (simp add: gesture_eval example_defs)
  have tt: "itemType colourList = MENU_ITEM_LIST \<or> itemType colourList = MENU_ITEM_PROGRESS"
    using t by simp
  have nn: "itemCount colourList \<noteq> 0 \<or> itemType colourList = MENU_ITEM_PROGRESS"
    using n by simp
  note inst = cancel_restore_law [OF c tt nn e, of 0 1000 "[CycleRight]"]
  show ?thesis
    by (intro conjI c t n e v1 vc vk inst)
qed

section \<open>Sub-menu round trip\<close>

text \<open>
  C3.  While browsing with the cursor at \<open>p\<close> on a sub-menu link and the
  window \<open>[t, b]\<close>, where the linked table carries a sub-menu header that
  points back to the active table, \<^verbatim>\<open>enter()\<close> makes the linked table
  active with \<open>top = 1\<close>, \<open>bottom = maxRows\<close> and the cursor at 1, and
  \<^verbatim>\<open>back()\<close> right after it makes the parent active again with the
  cursor at \<open>p\<close>, \<open>top = t\<close> and \<open>bottom = b\<close>.
\<close>

theorem submenu_round_trip:
  assumes "table s = Some tbl" and "cursorItem s = Some it"
    and "itemType it = MENU_ITEM_SUB_MENU" and "subMenu it = Some child"
    and "tableAt (heap s) child = Some ctbl"
    and "isHeader (tbl ! 0)"
    and "itemType (ctbl ! 0) = MENU_ITEM_SUB_MENU_HEADER"
    and "subMenu (ctbl ! 0) = Some (currentMenuTable s)"
    and "getMenuSize ctbl = Some nc" and "2 \<le> length ctbl"
    and "getMenuSize tbl = Some np"
    and "\<not> isEditModeEnabled s"
  shows "\<exists>s1 s2. enter s = Some s1 \<and> currentMenuTable s1 = child \<and>
           top_pos s1 = 1 \<and> bottom s1 = maxRows s \<and> cursorPosition s1 = 1 \<and>
           backpress c s1 = Some s2 \<and> currentMenuTable s2 = currentMenuTable s \<and>
           cursorPosition s2 = cursorPosition s \<and> top_pos s2 = top_pos s \<and>
           bottom s2 = bottom s \<and> isEditModeEnabled s2 = isEditModeEnabled s"
proof -
  let ?cur = "currentMenuTable s"
  define hdr' where "hdr' = (tbl ! 0)\<lparr>hdrTop := top_pos s, hdrBottom := bottom s,
                           hdrCursorPosition := cursorPosition s\<rparr>"
  define heap1 where "heap1 = (heap s)[?cur := tbl[0 := hdr']]"
  note t = table_SomeD[OF assms(1)]
  note d = cursorItem_SomeD[OF assms(2)]
  note ch = tableAt_SomeD[OF assms(5)]
  have len0: "0 < length tbl" using d(2) t(2) by auto
  have ty: "itemType hdr' = itemType (tbl ! 0)" "subMenu hdr' = subMenu (tbl ! 0)"
    "isHeader hdr'" "hdrTop hdr' = top_pos s" "hdrBottom hdr' = bottom s"
    "hdrCursorPosition hdr' = cursorPosition s"
    using assms(6) by (simp_all add: hdr'_def isHeader_def)
  define ptbl where "ptbl = tbl[0 := hdr']"
  have p: "heap1 ! ?cur = ptbl" "length heap1 = length (heap s)"
    using t by (simp_all add: heap1_def ptbl_def)
  have pt: "map itemType ptbl = map itemType tbl" "length ptbl = length tbl" "ptbl ! 0 = hdr'"
    using len0 ty(1) by (simp_all add: ptbl_def map_header_update)
  define ctbl1 where "ctbl1 = heap1 ! child"
  have c1: "map itemType ctbl1 = map itemType ctbl \<and> length ctbl1 = length ctbl \<and>
            itemType (ctbl1 ! 0) = MENU_ITEM_SUB_MENU_HEADER \<and> subMenu (ctbl1 ! 0) = Some ?cur"
  proof (cases "child = ?cur")
    case True
    then have "ctbl = tbl" "ctbl1 = ptbl" using ch t p by (simp_all add: ctbl1_def)
    then show ?thesis using pt ty assms(7,8) by simp
  next
    case False
    then have "ctbl1 = ctbl" using ch by (simp add: ctbl1_def heap1_def)
    then show ?thesis using assms(7,8) by simp
  qed
  have szc: "getMenuSize (heap1 ! child) = Some nc"
    using c1 assms(9) getMenuSize_cong[of ctbl1 ctbl] by (simp add: ctbl1_def)
  have szp: "getMenuSize ptbl = Some np"
    using pt(1) assms(11) getMenuSize_cong[of ptbl tbl] by simp
  define s1 where
    "s1 = update (s\<lparr>heap := heap1, top_pos := 1, bottom := maxRows s, cursorPosition := 1,
                      currentMenuTable := child, currentMenuSize := nc\<rparr>)"
  have "enter s = enterSubMenu s it"
    using t d assms(3) by (simp add: enter_def assms(1) itemAt_def)
  also have "\<dots> = Some s1"
    unfolding s1_def
    by (rule enterSubMenu_eq[OF assms(1) assms(4) ch(1) assms(6) len0 hdr'_def heap1_def szc])
  finally have e: "enter s = Some s1" .
  have f1: "table s1 = Some ctbl1" "cursorPosition s1 = 1" "\<not> isEditModeEnabled s1"
    "heap s1 = heap1" "currentMenuTable s1 = child" "top_pos s1 = 1" "bottom s1 = maxRows s"
    using ch(1) p(2) assms(12)
    by (simp_all add: s1_def update_def notify_def table_def tableAt_def ctbl1_def)
  have inb: "unat (cursorPosition s1) < length ctbl1" using c1 assms(10) f1(2) by simp
  have b1: "backpress c s1 = leaveSubMenu s1 (ctbl1 ! 0)"
    using c1 by (intro backpress_browsing_sub[OF f1(1) inb f1(3)]) simp
  have pa: "tableAt (heap s1) ?cur = Some ptbl"
    using t(1) p by (simp add: f1(4) tableAt_def)
  have lp: "0 < length ptbl" "isHeader (ptbl ! 0)" using pt len0 ty(3) by simp_all
  have c1s: "subMenu (ctbl1 ! 0) = Some ?cur" using c1 by simp
  note l = leaveSubMenu_eq[OF c1s pa szp lp]
  show ?thesis
    apply (rule exI[of _ s1])
    apply (rule exI[of _ "update (s1\<lparr>currentMenuTable := ?cur, currentMenuSize := np,
                      top_pos := hdrTop (ptbl ! 0), bottom := hdrBottom (ptbl ! 0),
                      cursorPosition := hdrCursorPosition (ptbl ! 0)\<rparr>)"])
    using e f1 b1 l pt(3) ty assms(12)
    apply (simp add: update_def notify_def)
    done
qed

text \<open>The root menu with the cursor on its link to the settings menu.\<close>

theorem submenu_round_trip_witness:
  "cursorItem ((startState 2 [rootMenu, settingsMenu])\<lparr>cursorPosition := 2\<rparr>) =
     Some ((mkItem MENU_ITEM_SUB_MENU)\<lparr>subMenu := Some 1\<rparr>) \<and>
   (\<exists>s1 s2. enter ((startState 2 [rootMenu, settingsMenu])\<lparr>cursorPosition := 2\<rparr>) = Some s1 \<and>
      currentMenuTable s1 = 1 \<and> top_pos s1 = 1 \<and> bottom s1 = 2 \<and> cursorPosition s1 = 1 \<and>
      backpress False s1 = Some s2 \<and> currentMenuTable s2 = 0 \<and>
      cursorPosition s2 = 2 \<and> top_pos s2 = 1 \<and> bottom s2 = 2 \<and> \<not> isEditModeEnabled s2)"
proof -
  let ?s = "(startState 2 [rootMenu, settingsMenu])\<lparr>cursorPosition := 2\<rparr>"
  have a1: "table ?s = Some rootMenu" by (simp add: table_def tableAt_def startState_def)
  have a2: "cursorItem ?s = Some ((mkItem MENU_ITEM_SUB_MENU)\<lparr>subMenu := Some 1\<rparr>)"
    by (simp add: cursorItem_def table_def tableAt_def itemAt_def startState_def rootMenu_def)
  have a3: "itemType ((mkItem MENU_ITEM_SUB_MENU)\<lparr>subMenu := Some 1\<rparr>) = MENU_ITEM_SUB_MENU"
    by (simp add: mkItem_def)
  have a4: "subMenu ((mkItem MENU_ITEM_SUB_MENU)\<lparr>subMenu := Some 1\<rparr>) = Some 1" by simp
  have a5: "tableAt (heap ?s) 1 = Some settingsMenu" by (simp add: tableAt_def startState_def)
  have a6: "isHeader (rootMenu ! 0)" by (simp add: isHeader_def menu_defs)
  have a7: "itemType (settingsMenu ! 0) = MENU_ITEM_SUB_MENU_HEADER" by (simp add: menu_defs)
  have a8: "subMenu (settingsMenu ! 0) = Some (currentMenuTable ?s)"
    by (simp add: menu_defs startState_def)
  have a10: "2 \<le> length settingsMenu" by (simp add: settingsMenu_def)
  have a12: "\<not> isEditModeEnabled ?s" by (simp add: startState_def)
  note inst = submenu_round_trip [OF a1 a2 a3 a4 a5 a6 a7 a8 example_sizes(2) a10
      example_sizes(1) a12, of False]
  have v: "maxRows ?s = 2" "currentMenuTable ?s = 0" "cursorPosition ?s = 2" "top_pos ?s = 1"
    "bottom ?s = 2" "isEditModeEnabled ?s = False"
    by (simp_all add: startState_def)
  show ?thesis using inst a2 unfolding v by simp
qed

section \<open>Moves that fail\<close>

text \<open>
  C9, as stated for every state, fails.  \<^verbatim>\<open>setCursorPosition(0)\<close> is
  accepted as it is, and from cursor 0 \<^verbatim>\<open>up()\<close> has no defined result:
  \<^verbatim>\<open>checkAllAboveHidden\<close> starts its scan at index \<open>cursorPosition - 1\<close>,
  which as a \<^verbatim>\<open>size_t\<close> is far outside the table, before edit mode is
  looked at.  So it is after set-up on five commands, where nothing visible
  lies above the cursor, and after \<^verbatim>\<open>enter()\<close> on the colour list, where
  edit mode is on.
\<close>

theorem move_outside_table_counterexample:
  "setupLcdWithMenu 2 16 [fiveCommands] 0 =
     Some ((startState 2 [fiveCommands])\<lparr>events := [Redraw]\<rparr>) \<and>
   up (setCursorPosition 0 ((startState 2 [fiveCommands])\<lparr>events := [Redraw]\<rparr>)) = None \<and>
   setupLcdWithMenu 2 16 [colourMenu] 0 =
     Some ((startState 2 [colourMenu])\<lparr>events := [Redraw]\<rparr>) \<and>
   enter ((startState 2 [colourMenu])\<lparr>events := [Redraw]\<rparr>) =
     Some ((startState 2 [colourMenu])\<lparr>isEditModeEnabled := True,
             events := [Redraw, CursorDrawn]\<rparr>) \<and>
   up (setCursorPosition 0 ((startState 2 [colourMenu])\<lparr>isEditModeEnabled := True,
             events := [Redraw, CursorDrawn]\<rparr>)) = None"
proof -
  have a: "setupLcdWithMenu 2 16 [fiveCommands] 0 =
     Some ((startState 2 [fiveCommands])\<lparr>events := [Redraw]\<rparr>)"
    by (simp add: setupLcdWithMenu_def tableAt_def getMenuSize_def getMenuSize_loop.simps
        startState_def update_def notify_def fiveCommands_def mkItem_def)
  have b: "up (setCursorPosition 0 ((startState 2 [fiveCommands])\<lparr>events := [Redraw]\<rparr>)) = None"
    by (simp add: up_def wasAtTop_def checkAllAboveHidden_def table_def tableAt_def
        setCursorPosition_def startState_def)
  have c: "setupLcdWithMenu 2 16 [colourMenu] 0 =
     Some ((startState 2 [colourMenu])\<lparr>events := [Redraw]\<rparr>)"
    by (simp add: setupLcdWithMenu_def tableAt_def getMenuSize_def getMenuSize_loop.simps
        startState_def update_def notify_def colourMenu_def colourList_def mkItem_def)
  have d: "enter ((startState 2 [colourMenu])\<lparr>events := [Redraw]\<rparr>) =
     Some ((startState 2 [colourMenu])\<lparr>isEditModeEnabled := True,
             events := [Redraw, CursorDrawn]\<rparr>)"
    by (simp add: gesture_eval example_defs)
  have e: "up (setCursorPosition 0 ((startState 2 [colourMenu])\<lparr>isEditModeEnabled := True,
             events := [Redraw, CursorDrawn]\<rparr>)) = None"
    by (simp add: up_def wasAtTop_def checkAllAboveHidden_def table_def tableAt_def
        setCursorPosition_def startState_def)
  show ?thesis by (intro conjI a b c d e)
qed

text \<open>
  C9, amended.  In a state whose active table is well-formed and whose cursor
  is on an entry: when edit mode is on or no visible entry lies in the
  direction of the move, \<^verbatim>\<open>down()\<close> and \<^verbatim>\<open>up()\<close> return \<^verbatim>\<open>false\<close> and
  leave the whole state as it is.  Whenever one of them returns, it returns
  \<^verbatim>\<open>true\<close> exactly if edit mode is off and a visible entry lies in the
  direction of the move; a call that returns \<^verbatim>\<open>false\<close> has changed
  nothing, and a call that returns \<^verbatim>\<open>true\<close> has moved the cursor, in that
  direction, to a visible entry of the same table that is neither a header
  nor the end marker.
\<close>

theorem move_failure_is_noop:
  assumes "onEntry s" and "table s = Some tbl"
  shows "(isEditModeEnabled s \<or> \<not> visibleIn tbl (unat (cursorPosition s) + 1) (length tbl - 1)
            \<longrightarrow> down s = Some (False, s)) \<and>
         (\<forall>r s'. down s = Some (r, s') \<longrightarrow>
            r = (\<not> isEditModeEnabled s \<and>
                 visibleIn tbl (unat (cursorPosition s) + 1) (length tbl - 1)) \<and>
            (\<not> r \<longrightarrow> s' = s) \<and>
            (r \<longrightarrow> onEntry s' \<and> table s' = Some tbl \<and>
                  unat (cursorPosition s) < unat (cursorPosition s') \<and>
                  \<not> hidden (tbl ! unat (cursorPosition s')) \<and>
                  \<not> isStructural (tbl ! unat (cursorPosition s')))) \<and>
         (isEditModeEnabled s \<or> \<not> visibleIn tbl 1 (unat (cursorPosition s))
            \<longrightarrow> up s = Some (False, s)) \<and>
         (\<forall>r s'. up s = Some (r, s') \<longrightarrow>
            r = (\<not> isEditModeEnabled s \<and> visibleIn tbl 1 (unat (cursorPosition s))) \<and>
            (\<not> r \<longrightarrow> s' = s) \<and>
            (r \<longrightarrow> onEntry s' \<and> table s' = Some tbl \<and>
                  unat (cursorPosition s') < unat (cursorPosition s) \<and>
                  \<not> hidden (tbl ! unat (cursorPosition s')) \<and>
                  \<not> isStructural (tbl ! unat (cursorPosition s'))))"
proof -
  note e = onEntryD[OF assms]
  note w = wf_tableD[OF e(1)]
  let ?c = "unat (cursorPosition s)"
  let ?dn = "\<not> isEditModeEnabled s \<and> visibleIn tbl (?c + 1) (length tbl - 1)"
  let ?un = "\<not> isEditModeEnabled s \<and> visibleIn tbl 1 ?c"
  have l2: "2 \<le> length tbl" using w(1) by linarith
  have cne: "cursorPosition s \<noteq> 0" using e(3) by (auto simp: unat_0_iff)
  have cle: "?c \<le> length tbl" using e(4) by linarith
  have d1: "isEditModeEnabled s \<or> \<not> visibleIn tbl (?c + 1) (length tbl - 1)
            \<longrightarrow> down s = Some (False, s)"
    using down_stay[OF assms(2) e(2) l2] by blast
  have u1: "isEditModeEnabled s \<or> \<not> visibleIn tbl 1 ?c \<longrightarrow> up s = Some (False, s)"
    using up_stay[OF assms(2) cne cle w(4)] by blast
  have d2: "\<forall>r s'. down s = Some (r, s') \<longrightarrow>
            r = ?dn \<and> (\<not> r \<longrightarrow> s' = s) \<and>
            (r \<longrightarrow> onEntry s' \<and> table s' = Some tbl \<and> ?c < unat (cursorPosition s') \<and>
                  \<not> hidden (tbl ! unat (cursorPosition s')) \<and>
                  \<not> isStructural (tbl ! unat (cursorPosition s')))"
  proof (intro allI impI)
    fix r s' assume r: "down s = Some (r, s')"
    show "r = ?dn \<and> (\<not> r \<longrightarrow> s' = s) \<and>
            (r \<longrightarrow> onEntry s' \<and> table s' = Some tbl \<and> ?c < unat (cursorPosition s') \<and>
                  \<not> hidden (tbl ! unat (cursorPosition s')) \<and>
                  \<not> isStructural (tbl ! unat (cursorPosition s')))"
    proof (cases ?dn)
      case False
      then have "down s = Some (False, s)" using d1 by blast
      then show ?thesis using r False by simp
    next
      case True
      then obtain j b where j: "?c < j" "j < length tbl - 1" "\<not> hidden (tbl ! j)"
        and m: "down s =
               Some (True, s\<lparr>cursorPosition := of_nat j,
                   top_pos := (if bottom s < of_nat j \<and> b then cursorPosition s else top_pos s),
                   bottom := (if bottom s < of_nat j \<and> b
                              then cursorPosition s + maxRows s - 1 else bottom s),
                   events := events s @ (if enableUpdate s then [Redraw] else [])\<rparr>)"
        using down_go[OF assms(2) e(2) l2 w(2)] by blast
      have "j < 256" using j(2) w(2) by linarith
      then have un: "unat (of_nat j :: u8) = j" by (rule unat_of_nat_u8)
      have j1: "1 \<le> j" using j(1) by linarith
      have ns: "\<not> isStructural (tbl ! j)" by (rule w(6)[OF j1 j(2)])
      have rt: "r" and s': "s' = s\<lparr>cursorPosition := of_nat j,
                   top_pos := (if bottom s < of_nat j \<and> b then cursorPosition s else top_pos s),
                   bottom := (if bottom s < of_nat j \<and> b
                              then cursorPosition s + maxRows s - 1 else bottom s),
                   events := events s @ (if enableUpdate s then [Redraw] else [])\<rparr>"
        using r m by simp_all
      have "onEntry s' \<and> table s' = Some tbl \<and> ?c < unat (cursorPosition s') \<and>
                  \<not> hidden (tbl ! unat (cursorPosition s')) \<and>
                  \<not> isStructural (tbl ! unat (cursorPosition s'))"
        unfolding s' using un j j1 ns e(1,2) assms(2) by (simp add: onEntry_def table_def)
      then show ?thesis using rt True by blast
    qed
  qed
  have u2: "\<forall>r s'. up s = Some (r, s') \<longrightarrow>
            r = ?un \<and> (\<not> r \<longrightarrow> s' = s) \<and>
            (r \<longrightarrow> onEntry s' \<and> table s' = Some tbl \<and> unat (cursorPosition s') < ?c \<and>
                  \<not> hidden (tbl ! unat (cursorPosition s')) \<and>
                  \<not> isStructural (tbl ! unat (cursorPosition s')))"
  proof (intro allI impI)
    fix r s' assume r: "up s = Some (r, s')"
    show "r = ?un \<and> (\<not> r \<longrightarrow> s' = s) \<and>
            (r \<longrightarrow> onEntry s' \<and> table s' = Some tbl \<and> unat (cursorPosition s') < ?c \<and>
                  \<not> hidden (tbl ! unat (cursorPosition s')) \<and>
                  \<not> isStructural (tbl ! unat (cursorPosition s')))"
    proof (cases ?un)
      case False
      then have "up s = Some (False, s)" using u1 by blast
      then show ?thesis using r False by simp
    next
      case True
      then obtain j b where j: "1 \<le> j" "j < ?c" "\<not> hidden (tbl ! j)"
        and m: "up s =
               Some (True, s\<lparr>cursorPosition := of_nat j,
                   top_pos := (if of_nat j < top_pos s \<and> b then of_nat j else top_pos s),
                   bottom := (if of_nat j < top_pos s \<and> b
                              then of_nat j + maxRows s - 1 else bottom s),
                   events := events s @ (if enableUpdate s then [Redraw] else [])\<rparr>)"
        using up_go[OF assms(2) cne cle w(4)] by blast
      have jl: "j < length tbl - 1" using j(2) e(4) by linarith
      then have "j < 256" using w(2) by linarith
      then have un: "unat (of_nat j :: u8) = j" by (rule unat_of_nat_u8)
      have ns: "\<not> isStructural (tbl ! j)" by (rule w(6)[OF j(1) jl])
      have rt: "r" and s': "s' = s\<lparr>cursorPosition := of_nat j,
                   top_pos := (if of_nat j < top_pos s \<and> b then of_nat j else top_pos s),
                   bottom := (if of_nat j < top_pos s \<and> b
                              then of_nat j + maxRows s - 1 else bottom s),
                   events := events s @ (if enableUpdate s then [Redraw] else [])\<rparr>"
        using r m by simp_all
      have "onEntry s' \<and> table s' = Some tbl \<and> unat (cursorPosition s') < ?c \<and>
                  \<not> hidden (tbl ! unat (cursorPosition s')) \<and>
                  \<not> isStructural (tbl ! unat (cursorPosition s'))"
        unfolding s' using un j jl ns e(1,2) assms(2) by (simp add: onEntry_def table_def)
      then show ?thesis using rt True by blast
    qed
  qed
  show ?thesis by (intro conjI d1 d2 u1 u2)
qed

text \<open>
  Five entries of which the third is hidden, on two rows, with the cursor on
  entry 2, where both moves succeed; the same menu with the cursor on entry
  1, where \<^verbatim>\<open>up()\<close> fails; and in edit mode, where \<^verbatim>\<open>down()\<close> fails.
\<close>

theorem move_failure_is_noop_witness:
  "onEntry ((startState 2 [thirdHidden])\<lparr>cursorPosition := 2\<rparr>) \<and>
   table ((startState 2 [thirdHidden])\<lparr>cursorPosition := 2\<rparr>) = Some thirdHidden \<and>
   down ((startState 2 [thirdHidden])\<lparr>cursorPosition := 2\<rparr>) =
     Some (True, (startState 2 [thirdHidden])\<lparr>cursorPosition := 4, top_pos := 2, bottom := 3,
                    events := [Redraw]\<rparr>) \<and>
   \<not> hidden (thirdHidden ! 4) \<and> \<not> isStructural (thirdHidden ! 4) \<and>
   up ((startState 2 [thirdHidden])\<lparr>cursorPosition := 2\<rparr>) =
     Some (True, (startState 2 [thirdHidden])\<lparr>cursorPosition := 1, events := [Redraw]\<rparr>) \<and>
   \<not> hidden (thirdHidden ! 1) \<and> \<not> isStructural (thirdHidden ! 1) \<and>
   up (startState 2 [thirdHidden]) = Some (False, startState 2 [thirdHidden]) \<and>
   down ((startState 2 [thirdHidden])\<lparr>isEditModeEnabled := True\<rparr>) =
     Some (False, (startState 2 [thirdHidden])\<lparr>isEditModeEnabled := True\<rparr>)"
proof -
  let ?s = "(startState 2 [thirdHidden])\<lparr>cursorPosition := 2\<rparr>"
  let ?d = "(startState 2 [thirdHidden])\<lparr>cursorPosition := 4, top_pos := 2, bottom := 3,
                    events := [Redraw]\<rparr>"
  let ?u = "(startState 2 [thirdHidden])\<lparr>cursorPosition := 1, events := [Redraw]\<rparr>"
  let ?e = "(startState 2 [thirdHidden])\<lparr>isEditModeEnabled := True\<rparr>"
  let ?t = "startState 2 [thirdHidden]"
  have ts: "table ?s = Some thirdHidden" "table ?e = Some thirdHidden" "table ?t = Some thirdHidden"
    by (simp_all add: table_def tableAt_def startState_def)
  have os: "onEntry ?s" "onEntry ?e" "onEntry ?t"
    using wf_thirdHidden
    by (simp_all add: onEntry_def table_def tableAt_def startState_def length_thirdHidden)
  have cs: "unat (cursorPosition ?s) = 2" "\<not> isEditModeEnabled ?s"
    "unat (cursorPosition ?t) = 1" "isEditModeEnabled ?e"
    "unat (cursorPosition ?d) = 4" "unat (cursorPosition ?u) = 1"
    by (simp_all add: startState_def)
  have dn: "down ?s = Some (True, ?d)"
    by (simp add: down_eval tableAt_def startState_def thirdHidden_def mkItem_def)
  have up: "up ?s = Some (True, ?u)"
    by (simp add: up_eval startState_def thirdHidden_def mkItem_def)
  note a = move_failure_is_noop[OF os(1) ts(1)]
  note b = move_failure_is_noop[OF os(2) ts(2)]
  note c = move_failure_is_noop[OF os(3) ts(3)]
  have d: "\<not> hidden (thirdHidden ! 4) \<and> \<not> isStructural (thirdHidden ! 4)"
    using a[THEN conjunct2, THEN conjunct1, rule_format, OF dn] cs(5) by simp
  have u: "\<not> hidden (thirdHidden ! 1) \<and> \<not> isStructural (thirdHidden ! 1)"
    using a[THEN conjunct2, THEN conjunct2, THEN conjunct2, rule_format, OF up] cs(6) by simp
  have f: "up ?t = Some (False, ?t)"
    using c vis_examples(3) unfolding cs(3) by blast
  have g: "down ?e = Some (False, ?e)"
    using b cs(4) by blast
  show ?thesis by (intro conjI os(1) ts(1) dn up f g conjunct1[OF d] conjunct2[OF d]
        conjunct1[OF u] conjunct2[OF u])
qed

section \<open>Recomputing the window on a move\<close>

text \<open>
  C2, as stated, fails for \<^verbatim>\<open>down()\<close>.  With five visible entries on three
  rows, the cursor on entry 3 (the last row) and the window \<open>[1, 3]\<close>, a move
  down skips no hidden entry, yet the window becomes \<open>[3, 5]\<close>: a slide by
  two, not by one.  With entry 3 of five hidden on two rows, the cursor on
  entry 2 (the last row) and the window \<open>[1, 2]\<close>, a move down skips one
  hidden entry, yet the window becomes \<open>[2, 3]\<close>: a slide by one, not by two.
\<close>

theorem window_slide_counterexample:
  "onLastRow ((startState 3 [fiveCommands])\<lparr>cursorPosition := 3\<rparr>) \<and>
   hiddenBetween fiveCommands 3 4 = 0 \<and>
   down ((startState 3 [fiveCommands])\<lparr>cursorPosition := 3\<rparr>) =
     Some (True, (startState 3 [fiveCommands])\<lparr>cursorPosition := 4, top_pos := 3, bottom := 5,
                    events := [Redraw]\<rparr>) \<and>
   onLastRow ((startState 2 [thirdHidden])\<lparr>cursorPosition := 2\<rparr>) \<and>
   hiddenBetween thirdHidden 2 4 = 1 \<and>
   down ((startState 2 [thirdHidden])\<lparr>cursorPosition := 2\<rparr>) =
     Some (True, (startState 2 [thirdHidden])\<lparr>cursorPosition := 4, top_pos := 2, bottom := 3,
                    events := [Redraw]\<rparr>)"
  by (simp add: down_eval tableAt_def startState_def fiveCommands_def thirdHidden_def mkItem_def
      onLastRow_def hiddenBetween_def)

text \<open>
  C2, amended.  In a state whose active table is well-formed and whose cursor
  is on an entry: a successful \<^verbatim>\<open>down()\<close> that moves the cursor past
  \<open>bottom\<close> while the cursor was on the last display row sets \<open>top\<close> to
  the position the cursor came from and \<open>bottom\<close> to \<open>top + maxRows - 1\<close>
  (8-bit arithmetic), whatever the number of hidden entries skipped; a
  successful \<^verbatim>\<open>up()\<close> that moves the cursor above \<open>top\<close> while the cursor
  was on the first display row sets \<open>top\<close> to the new cursor position and
  \<open>bottom\<close> to \<open>top + maxRows - 1\<close>, so that from \<open>cursor = top\<close> the window
  slides up by the number of hidden entries skipped plus one.  \<open>top\<close> and
  \<open>bottom\<close> are unchanged by a move down that does not pass \<open>bottom\<close>, by a
  move down made while the cursor is not on the last row and a visible entry
  lies between the cursor and the last entry, and by a move up that does not
  pass \<open>top\<close> or is made while the cursor is not on the first row.
\<close>

theorem window_recomputation:
  assumes "onEntry s" and "table s = Some tbl"
  shows
   "(\<forall>s'. down s = Some (True, s') \<longrightarrow>
       (bottom s < cursorPosition s' \<and> onLastRow s \<longrightarrow>
          top_pos s' = cursorPosition s \<and> bottom s' = top_pos s' + maxRows s - 1) \<and>
       (\<not> bottom s < cursorPosition s' \<longrightarrow> top_pos s' = top_pos s \<and> bottom s' = bottom s) \<and>
       (\<not> onLastRow s \<and> visibleIn tbl (unat (cursorPosition s) + 1) (length tbl - 2) \<longrightarrow>
          top_pos s' = top_pos s \<and> bottom s' = bottom s)) \<and>
    (\<forall>s'. up s = Some (True, s') \<longrightarrow>
       (cursorPosition s' < top_pos s \<and> onFirstRow s \<longrightarrow>
          top_pos s' = cursorPosition s' \<and> bottom s' = top_pos s' + maxRows s - 1 \<and>
          (cursorPosition s = top_pos s \<longrightarrow>
             unat (top_pos s) - unat (top_pos s') =
               hiddenBetween tbl (unat (cursorPosition s')) (unat (cursorPosition s)) + 1)) \<and>
       (\<not> (cursorPosition s' < top_pos s \<and> onFirstRow s) \<longrightarrow>
          top_pos s' = top_pos s \<and> bottom s' = bottom s))"
proof (intro conjI allI impI)
  note e = onEntryD[OF assms]
  note w = wf_tableD[OF e(1)]
  have l2: "2 \<le> length tbl" using w(1) by linarith
  let ?c = "unat (cursorPosition s)"
  note wb = wasAtBottom_eq[OF assms(2) e(2) l2]
  {
    fix s' assume d: "down s = Some (True, s')"
    obtain j b where j: "?c < j" "j < length tbl - 1" "wasAtBottom s = Some b"
      and s': "s' = s\<lparr>cursorPosition := of_nat j,
                   top_pos := (if bottom s < of_nat j \<and> b then cursorPosition s else top_pos s),
                   bottom := (if bottom s < of_nat j \<and> b
                              then cursorPosition s + maxRows s - 1 else bottom s),
                   events := events s @ (if enableUpdate s then [Redraw] else [])\<rparr>"
      using down_true_form[OF assms d] by blast
    have cp: "cursorPosition s' = of_nat j" by (simp add: s')
    have bv: "b = (if (\<forall>i. ?c < i \<and> i < length tbl - 2 \<longrightarrow> hidden (tbl ! i))
                   then maxRows s \<noteq> 0 else onLastRow s)"
      using wb j(3) by (auto simp add: onLastRow_def)
    {
      assume a: "bottom s < cursorPosition s' \<and> onLastRow s"
      then have "onLastRow s" by simp
      then have "b" using bv onLastRow_rows[of s] by simp
      then show "top_pos s' = cursorPosition s" "bottom s' = top_pos s' + maxRows s - 1"
        using a cp by (simp_all add: s')
    }
    {
      assume a: "\<not> bottom s < cursorPosition s'"
      then show "top_pos s' = top_pos s" "bottom s' = bottom s"
        using cp by (simp_all add: s')
    }
    {
      assume a: "\<not> onLastRow s \<and> visibleIn tbl (?c + 1) (length tbl - 2)"
      then have "\<not> (\<forall>i. ?c < i \<and> i < length tbl - 2 \<longrightarrow> hidden (tbl ! i))"
        by (auto simp: visibleIn_iff Suc_le_eq)
      then have "\<not> b" using bv a by auto
      then show "top_pos s' = top_pos s" "bottom s' = bottom s"
        by (simp_all add: s')
    }
  }
  have cne: "cursorPosition s \<noteq> 0" using e(3) by (auto simp: unat_0_iff)
  have cle: "?c \<le> length tbl" using e(4) by linarith
  note wt = wasAtTop_eq[OF assms(2) cne cle]
  {
    fix s' assume u: "up s = Some (True, s')"
    obtain j b where j: "1 \<le> j" "j < ?c"
        "\<forall>i. j < i \<and> i < ?c \<longrightarrow> hidden (tbl ! i)" "\<not> hidden (tbl ! j)" "wasAtTop s = Some b"
      and s': "s' = s\<lparr>cursorPosition := of_nat j,
                   top_pos := (if of_nat j < top_pos s \<and> b then of_nat j else top_pos s),
                   bottom := (if of_nat j < top_pos s \<and> b
                              then of_nat j + maxRows s - 1 else bottom s),
                   events := events s @ (if enableUpdate s then [Redraw] else [])\<rparr>"
      using up_true_form[OF assms u] by blast
    have cp: "cursorPosition s' = of_nat j" by (simp add: s')
    have "j < 256" using j(2) e(4) w(2) by linarith
    then have un: "unat (of_nat j :: u8) = j" by (rule unat_of_nat_u8)
    have "\<not> (\<forall>i. 1 \<le> i \<and> i < ?c \<longrightarrow> hidden (tbl ! i))" using j(1,2,4) by blast
    then have bv: "b = onFirstRow s" using wt j(5) by (auto simp add: onFirstRow_def)
    {
      assume a: "cursorPosition s' < top_pos s \<and> onFirstRow s"
      then show t: "top_pos s' = cursorPosition s'" and "bottom s' = top_pos s' + maxRows s - 1"
        using cp bv by (simp_all add: s')
      {
        assume q: "cursorPosition s = top_pos s"
        have "unat (top_pos s') = j" using t cp un by simp
        moreover have "unat (cursorPosition s') = j" using cp un by simp
        ultimately show "unat (top_pos s) - unat (top_pos s') =
               hiddenBetween tbl (unat (cursorPosition s')) ?c + 1"
          using hiddenBetween_all[OF j(3,2)] q by simp
      }
    }
    {
      assume a: "\<not> (cursorPosition s' < top_pos s \<and> onFirstRow s)"
      then show "top_pos s' = top_pos s" "bottom s' = bottom s"
        using cp bv by (auto simp add: s')
    }
  }
qed

text \<open>
  Entry 3 of five hidden, on two rows: down from entry 2 with the window
  \<open>[1, 2]\<close>, and up from entry 4 with the window \<open>[4, 5]\<close>.
\<close>

theorem window_recomputation_witness:
  "onEntry ((startState 2 [thirdHidden])\<lparr>cursorPosition := 2\<rparr>) \<and>
   onLastRow ((startState 2 [thirdHidden])\<lparr>cursorPosition := 2\<rparr>) \<and>
   (\<exists>s'. down ((startState 2 [thirdHidden])\<lparr>cursorPosition := 2\<rparr>) = Some (True, s') \<and>
         cursorPosition s' = 4 \<and> top_pos s' = 2 \<and> bottom s' = top_pos s' + 2 - 1) \<and>
   onEntry ((startState 2 [thirdHidden])\<lparr>cursorPosition := 4, top_pos := 4, bottom := 5\<rparr>) \<and>
   onFirstRow ((startState 2 [thirdHidden])\<lparr>cursorPosition := 4, top_pos := 4, bottom := 5\<rparr>) \<and>
   (\<exists>s'. up ((startState 2 [thirdHidden])\<lparr>cursorPosition := 4, top_pos := 4, bottom := 5\<rparr>) =
           Some (True, s') \<and>
         cursorPosition s' = 2 \<and> top_pos s' = cursorPosition s' \<and>
         bottom s' = top_pos s' + 2 - 1 \<and>
         4 - unat (top_pos s') = hiddenBetween thirdHidden (unat (cursorPosition s')) 4 + 1)"
proof -
  let ?d = "(startState 2 [thirdHidden])\<lparr>cursorPosition := 2\<rparr>"
  let ?d' = "(startState 2 [thirdHidden])\<lparr>cursorPosition := 4, top_pos := 2, bottom := 3,
                    events := [Redraw]\<rparr>"
  let ?u = "(startState 2 [thirdHidden])\<lparr>cursorPosition := 4, top_pos := 4, bottom := 5\<rparr>"
  let ?u' = "(startState 2 [thirdHidden])\<lparr>cursorPosition := 2, top_pos := 2, bottom := 3,
                    events := [Redraw]\<rparr>"
  have ts: "table ?d = Some thirdHidden" "table ?u = Some thirdHidden"
    by (simp_all add: table_def tableAt_def startState_def)
  have os: "onEntry ?d" "onEntry ?u"
    using wf_thirdHidden
    by (simp_all add: onEntry_def table_def tableAt_def startState_def length_thirdHidden)
  have rows: "onLastRow ?d" "onFirstRow ?u"
    by (simp_all add: onLastRow_def onFirstRow_def cursorLine_def constrain_def startState_def)
  have vd: "bottom ?d < cursorPosition ?d'" "maxRows ?d = 2" "cursorPosition ?d = 2"
    "cursorPosition ?d' = 4"
    by (simp_all add: startState_def)
  have vu: "cursorPosition ?u' < top_pos ?u" "maxRows ?u = 2" "cursorPosition ?u = top_pos ?u"
    "unat (top_pos ?u) = 4" "unat (cursorPosition ?u) = 4" "cursorPosition ?u' = 2"
    by (simp_all add: startState_def)
  note a = window_recomputation[OF os(1) ts(1), THEN conjunct1, rule_format, OF down_example]
  note b = window_recomputation[OF os(2) ts(2), THEN conjunct2, rule_format, OF up_example]
  have d: "top_pos ?d' = cursorPosition ?d \<and> bottom ?d' = top_pos ?d' + maxRows ?d - 1"
    using a vd(1) rows(1) by blast
  have u: "top_pos ?u' = cursorPosition ?u' \<and> bottom ?u' = top_pos ?u' + maxRows ?u - 1 \<and>
           (cursorPosition ?u = top_pos ?u \<longrightarrow>
             unat (top_pos ?u) - unat (top_pos ?u') =
               hiddenBetween thirdHidden (unat (cursorPosition ?u')) (unat (cursorPosition ?u)) + 1)"
    using b vu(1) rows(2) by blast
  have d1: "cursorPosition ?d' = 4" by simp
  have d2: "top_pos ?d' = 2" using d unfolding vd(3) by blast
  have d3: "bottom ?d' = top_pos ?d' + 2 - 1" using d unfolding vd(2) by blast
  have dd: "\<exists>s'. down ?d = Some (True, s') \<and>
         cursorPosition s' = 4 \<and> top_pos s' = 2 \<and> bottom s' = top_pos s' + 2 - 1"
    by (rule exI[of _ ?d']) (intro conjI down_example d1 d2 d3)
  have u1: "cursorPosition ?u' = 2" by simp
  have u2: "top_pos ?u' = cursorPosition ?u'" using u by blast
  have u3: "bottom ?u' = top_pos ?u' + 2 - 1" using u unfolding vu(2) by blast
  have u4: "4 - unat (top_pos ?u') = hiddenBetween thirdHidden (unat (cursorPosition ?u')) 4 + 1"
    using u vu(3) unfolding vu(4,5) by blast
  have uu: "\<exists>s'. up ?u = Some (True, s') \<and>
         cursorPosition s' = 2 \<and> top_pos s' = cursorPosition s' \<and>
         bottom s' = top_pos s' + 2 - 1 \<and>
         4 - unat (top_pos s') = hiddenBetween thirdHidden (unat (cursorPosition s')) 4 + 1"
    by (rule exI[of _ ?u']) (intro conjI up_example u1 u2 u3 u4)
  show ?thesis by (intro conjI os rows dd uu)
qed

section \<open>The invariant of navigation\<close>

text \<open>
  C1, as stated, fails in its bound \<open>cursorPosition \<le> bottom\<close>.  On two rows,
  with entry 3 of five hidden, two moves down from the set-up state put the
  cursor on entry 4 while the window is \<open>[2, 3]\<close>: \<^verbatim>\<open>down()\<close> sets
  \<open>top\<close> to the entry the cursor came from and \<open>bottom\<close> to
  \<open>top + maxRows - 1\<close>, without counting the hidden entry in between.
\<close>

theorem cursor_below_window_counterexample:
  "heapOK [thirdHidden] \<and>
   setupLcdWithMenu 2 16 [thirdHidden] 0 =
     Some ((startState 2 [thirdHidden])\<lparr>events := [Redraw]\<rparr>) \<and>
   run [Down, Down] ((startState 2 [thirdHidden])\<lparr>events := [Redraw]\<rparr>) =
     Some ((startState 2 [thirdHidden])\<lparr>cursorPosition := 4, top_pos := 2, bottom := 3,
             events := [Redraw, Redraw, Redraw]\<rparr>) \<and>
   bottom ((startState 2 [thirdHidden])\<lparr>cursorPosition := 4, top_pos := 2, bottom := 3,
             events := [Redraw, Redraw, Redraw]\<rparr>) <
   cursorPosition ((startState 2 [thirdHidden])\<lparr>cursorPosition := 4, top_pos := 2, bottom := 3,
             events := [Redraw, Redraw, Redraw]\<rparr>)"
proof -
  have a: "heapOK [thirdHidden]" by (rule heapOK_examples(1))
  have b: "setupLcdWithMenu 2 16 [thirdHidden] 0 =
     Some ((startState 2 [thirdHidden])\<lparr>events := [Redraw]\<rparr>)"
    by (simp add: setupLcdWithMenu_def tableAt_def getMenuSize_def getMenuSize_loop.simps
        startState_def update_def notify_def thirdHidden_def mkItem_def)
  have c: "run [Down, Down] ((startState 2 [thirdHidden])\<lparr>events := [Redraw]\<rparr>) =
     Some ((startState 2 [thirdHidden])\<lparr>cursorPosition := 4, top_pos := 2, bottom := 3,
             events := [Redraw, Redraw, Redraw]\<rparr>)"
    by (simp add: down_eval tableAt_def startState_def thirdHidden_def mkItem_def)
  have d: "bottom ((startState 2 [thirdHidden])\<lparr>cursorPosition := 4, top_pos := 2, bottom := 3,
             events := [Redraw, Redraw, Redraw]\<rparr>) <
   cursorPosition ((startState 2 [thirdHidden])\<lparr>cursorPosition := 4, top_pos := 2, bottom := 3,
             events := [Redraw, Redraw, Redraw]\<rparr>)"
    by (simp add: startState_def)
  show ?thesis by (intro conjI a b c d)
qed

text \<open>
  C1, amended.  Let every table of the heap be well-formed (a visible header
  first, an end marker last, between them at least one and at most 254
  entries that are neither), the first entry of every table be visible, and
  every sub-menu link be null or point to a table whose header is a sub-menu
  header linking back.  Let the display have at least one row and the root
  table not start with a sub-menu header.  Whenever set-up and then each
  call of a sequence of \<^verbatim>\<open>up()\<close>, \<^verbatim>\<open>down()\<close>, \<^verbatim>\<open>enter()\<close> and
  \<^verbatim>\<open>back()\<close> has returned, \<open>top \<le> cursorPosition\<close>, the cursor is on an
  entry of the active table that is neither hidden nor a header nor the end
  marker, and \<open>bottom = top + maxRows - 1\<close> in 8-bit arithmetic.  If moreover
  the display has at least two rows, no node of any table is hidden and the
  entries of each table and the rows of the display number at most 256
  together, then also \<open>cursorPosition \<le> bottom\<close>.
\<close>

theorem navigation_invariant:
  assumes "heapOK h" and "menu < length h" and "rows \<noteq> 0"
    and "itemType (h ! menu ! 0) \<noteq> MENU_ITEM_SUB_MENU_HEADER"
    and "setupLcdWithMenu rows cols h menu = Some s0" and "run ops s0 = Some s"
  shows "\<exists>tbl. table s = Some tbl \<and>
           top_pos s \<le> cursorPosition s \<and>
           1 \<le> unat (cursorPosition s) \<and> unat (cursorPosition s) < length tbl - 1 \<and>
           \<not> hidden (tbl ! unat (cursorPosition s)) \<and>
           \<not> isStructural (tbl ! unat (cursorPosition s)) \<and>
           bottom s = top_pos s + maxRows s - 1 \<and>
           (plain rows h \<longrightarrow> cursorPosition s \<le> bottom s)"
proof -
  have "\<exists>s. setupLcdWithMenu rows cols h menu = Some s \<and> navInv (plain rows h) s"
    by (rule setup_inv[OF assms(1-4)])
  then have i0: "navInv (plain rows h) s0" using assms(5) by simp
  have "\<exists>s'. run ops s0 = Some s' \<and> navInv (plain rows h) s'" by (rule run_inv[OF i0])
  then have i: "navInv (plain rows h) s" using assms(6) by simp
  note n = navInvD[OF i]
  obtain tbl where t: "table s = Some tbl" using n(4) by blast
  note k = navInvD_table[OF i t]
  note e = onEntryD[OF n(3) t]
  have ns: "\<not> isStructural (tbl ! unat (cursorPosition s))"
    by (rule wf_tableD(6)[OF e(1) e(3) e(4)])
  have le: "top_pos s \<le> cursorPosition s" using k(3) by (simp add: word_le_nat_alt)
  have wb: "plain rows h \<longrightarrow> cursorPosition s \<le> bottom s"
  proof
    assume "plain rows h"
    then have "cursorPosition s \<le> top_pos s + maxRows s - 1"
      using within_le[OF n(8) n(2)] by simp
    then show "cursorPosition s \<le> bottom s" using n(5) by simp
  qed
  show ?thesis
    using t le e(3) e(4) k(1) ns n(5) wb by blast
qed

text \<open>
  The root menu with its settings sub-menu on two rows: down to the link,
  into the sub-menu, down, back and up.  The run ends on entry 1 of the root
  menu, whose header holds the window and cursor saved on the way in.
\<close>

theorem navigation_invariant_witness:
  "heapOK [rootMenu, settingsMenu] \<and> 0 < length [rootMenu, settingsMenu] \<and> (2 :: u8) \<noteq> 0 \<and>
   itemType ([rootMenu, settingsMenu] ! 0 ! 0) \<noteq> MENU_ITEM_SUB_MENU_HEADER \<and>
   plain 2 [rootMenu, settingsMenu] \<and>
   setupLcdWithMenu 2 16 [rootMenu, settingsMenu] 0 =
     Some ((startState 2 [rootMenu, settingsMenu])\<lparr>events := [Redraw]\<rparr>) \<and>
   run [Down, Enter, Down, Back False, Up]
       ((startState 2 [rootMenu, settingsMenu])\<lparr>events := [Redraw]\<rparr>) =
     Some ((startState 2 [rootMenu, settingsMenu])
             \<lparr>heap := [rootMenu[0 := (rootMenu ! 0)\<lparr>hdrTop := 1, hdrBottom := 2,
                                                   hdrCursorPosition := 2\<rparr>], settingsMenu],
              events := [Redraw, Redraw, Redraw, Redraw, Redraw, Redraw]\<rparr>) \<and>
   (\<exists>tbl. table ((startState 2 [rootMenu, settingsMenu])
             \<lparr>heap := [rootMenu[0 := (rootMenu ! 0)\<lparr>hdrTop := 1, hdrBottom := 2,
                                                   hdrCursorPosition := 2\<rparr>], settingsMenu],
              events := [Redraw, Redraw, Redraw, Redraw, Redraw, Redraw]\<rparr>) = Some tbl \<and>
      length tbl = 5 \<and> \<not> hidden (tbl ! 1) \<and> \<not> isStructural (tbl ! 1)) \<and>
   cursorPosition ((startState 2 [rootMenu, settingsMenu])
             \<lparr>heap := [rootMenu[0 := (rootMenu ! 0)\<lparr>hdrTop := 1, hdrBottom := 2,
                                                   hdrCursorPosition := 2\<rparr>], settingsMenu],
              events := [Redraw, Redraw, Redraw, Redraw, Redraw, Redraw]\<rparr>)
     \<le> bottom ((startState 2 [rootMenu, settingsMenu])
             \<lparr>heap := [rootMenu[0 := (rootMenu ! 0)\<lparr>hdrTop := 1, hdrBottom := 2,
                                                   hdrCursorPosition := 2\<rparr>], settingsMenu],
              events := [Redraw, Redraw, Redraw, Redraw, Redraw, Redraw]\<rparr>)"
proof -
  let ?H = "[rootMenu, settingsMenu]"
  let ?s0 = "(startState 2 ?H)\<lparr>events := [Redraw]\<rparr>"
  let ?H' = "[rootMenu[0 := (rootMenu ! 0)\<lparr>hdrTop := 1, hdrBottom := 2,
                                            hdrCursorPosition := 2\<rparr>], settingsMenu]"
  let ?fin = "(startState 2 ?H)\<lparr>heap := ?H',
              events := [Redraw, Redraw, Redraw, Redraw, Redraw, Redraw]\<rparr>"
  have a: "heapOK ?H" by (rule heapOK_examples(3))
  have b: "0 < length ?H" by simp
  have c: "(2 :: u8) \<noteq> 0" by simp
  have d: "itemType (?H ! 0 ! 0) \<noteq> MENU_ITEM_SUB_MENU_HEADER"
    by (simp add: menu_defs)
  have p: "plain 2 ?H" by (rule plain_example)
  have ln: "length rootMenu = 5" "length settingsMenu = 4" by (simp_all add: menu_defs)
  have su: "setupLcdWithMenu 2 16 ?H 0 = Some ?s0"
    by (simp add: setupLcdWithMenu_def tableAt_def example_sizes startState_def update_def
        notify_def ln)
  let ?s1 = "?s0\<lparr>cursorPosition := 2, events := [Redraw, Redraw]\<rparr>"
  let ?s2 = "?s0\<lparr>heap := ?H', currentMenuTable := 1, currentMenuSize := 4,
                 events := [Redraw, Redraw, Redraw]\<rparr>"
  let ?s3 = "?s2\<lparr>cursorPosition := 2, events := [Redraw, Redraw, Redraw, Redraw]\<rparr>"
  let ?s4 = "?s0\<lparr>heap := ?H', cursorPosition := 2,
                 events := [Redraw, Redraw, Redraw, Redraw, Redraw]\<rparr>"
  have r1: "step Down ?s0 = Some ?s1"
    by (simp add: down_eval tableAt_def startState_def menu_defs)
  have r2: "step Enter ?s1 = Some ?s2"
    by (simp add: enter_def enterSubMenu_def saveMemento_def isHeader_def putItem_def
        table_def tableAt_def itemAt_def update_def notify_def example_sizes startState_def
        rootMenu_def mkItem_def Let_def)
  have r3: "step Down ?s2 = Some ?s3"
    by (simp add: down_eval tableAt_def startState_def menu_defs)
  have r4: "step (Back False) ?s3 = Some ?s4"
    by (simp add: backpress_def isInEditMode_def leaveIfSubMenu_def isSubMenu_def
        leaveSubMenu_def loadMemento_def isHeader_def table_def tableAt_def itemAt_def
        update_def notify_def example_sizes startState_def menu_defs Let_def
        getMenuSize_def getMenuSize_loop.simps)
  have r5: "step Up ?s4 = Some ?fin"
    by (simp add: up_eval startState_def menu_defs)
  have ru: "run [Down, Enter, Down, Back False, Up] ?s0 = Some ?fin"
    by (simp only: run.simps r1 r2 r3 r4 r5 bind.bind_lunit)
  from navigation_invariant[OF a b c d su ru]
  obtain tbl where f: "table ?fin = Some tbl"
      "1 \<le> unat (cursorPosition ?fin)" "unat (cursorPosition ?fin) < length tbl - 1"
      "\<not> hidden (tbl ! unat (cursorPosition ?fin))"
      "\<not> isStructural (tbl ! unat (cursorPosition ?fin))"
      "plain 2 ?H \<longrightarrow> cursorPosition ?fin \<le> bottom ?fin"
    by blast
  have cp: "unat (cursorPosition ?fin) = 1" by (simp add: startState_def)
  have tl: "length tbl = 5" using f(1) by (auto simp add: table_def tableAt_def startState_def rootMenu_def)
  have g: "cursorPosition ?fin \<le> bottom ?fin" using f(6) p by blast
  have ex: "\<exists>tbl. table ?fin = Some tbl \<and> length tbl = 5 \<and> \<not> hidden (tbl ! 1) \<and>
              \<not> isStructural (tbl ! 1)"
    using f(1,4,5) tl unfolding cp by blast
  show ?thesis by (intro conjI a b c d p su ru ex g)
qed

section \<open>Cursor accessors\<close>

text \<open>
  C10.  \<^verbatim>\<open>setCursorPosition(p)\<close> stores any 8-bit position as it is, changing
  no other field of the engine, and \<^verbatim>\<open>getCursorPosition()\<close> then returns it.
\<close>

theorem setCursorPosition_verbatim:
  "getCursorPosition (setCursorPosition p s) = p \<and>
   setCursorPosition p s = s\<lparr>cursorPosition := p\<rparr> \<and>
   top_pos (setCursorPosition p s) = top_pos s \<and>
   bottom (setCursorPosition p s) = bottom s \<and>
   isEditModeEnabled (setCursorPosition p s) = isEditModeEnabled s \<and>
   currentMenuTable (setCursorPosition p s) = currentMenuTable s \<and>
   currentMenuSize (setCursorPosition p s) = currentMenuSize s \<and>
   heap (setCursorPosition p s) = heap s"
  by (simp add: getCursorPosition_def setCursorPosition_def)


end
